theory Spec2Isabelle
  imports Main "HOL-Library.AList"
begin

section \<open>Errors\<close>

text \<open>
  The C++ code has no exceptions. Two things stop it: an \<^verbatim>\<open>assert\<close> whose condition is
  false, and the dereference of a null \<^verbatim>\<open>Page *\<close>. Both are values of the model; the
  assertions are modelled as compiled in (no \<^verbatim>\<open>NDEBUG\<close>).
\<close>

datatype error = AssertionFailed | NullDereference

section \<open>The LRU replacer (\<^verbatim>\<open>LRUReplacer<T>\<close>)\<close>

text \<open>
  The class keeps a \<^verbatim>\<open>std::list<T> _list\<close> and an index \<^verbatim>\<open>_id2node\<close> from a value to the
  list iterator of its node. A list iterator is the identity of a node and stays valid
  while other nodes come and go, so a node of the model is a pair of an identity and a
  value, front of the list first, and the index is an association list from a value to
  a node identity.
\<close>

record 'a LRUReplacer =
  lru_list :: "(nat \<times> 'a) list"
  lru_id2node :: "('a \<times> nat) list"

definition LRUReplacer_new :: "'a LRUReplacer" where
  "LRUReplacer_new = \<lparr>lru_list = [], lru_id2node = []\<rparr>"

text \<open>\<^verbatim>\<open>_list.erase(it)\<close>: unlink the node the iterator names.\<close>

definition list_erase :: "nat \<Rightarrow> (nat \<times> 'a) list \<Rightarrow> (nat \<times> 'a) list" where
  "list_erase n l = filter (\<lambda>nd. fst nd \<noteq> n) l"

text \<open>The node that \<^verbatim>\<open>_list.insert\<close> allocates: an identity no live node has.\<close>

definition new_node :: "(nat \<times> 'a) list \<Rightarrow> nat" where
  "new_node l = Suc (foldr max (map fst l) 0)"

definition LRUReplacer_Insert :: "'a \<Rightarrow> 'a LRUReplacer \<Rightarrow> 'a LRUReplacer" where
  "LRUReplacer_Insert v r =
     (let l = (case map_of (lru_id2node r) v of
                 Some n \<Rightarrow> list_erase n (lru_list r)
               | None \<Rightarrow> lru_list r);
          n' = new_node l
      in \<lparr>lru_list = (n', v) # l, lru_id2node = AList.update v n' (lru_id2node r)\<rparr>)"

text \<open>
  \<^verbatim>\<open>Victim\<close> tests the index, not the list, for emptiness and then asserts that the list
  is not empty. The result is the value handed back through the reference parameter
  (\<open>None\<close> when the function returns false) and the new replacer.
\<close>

definition LRUReplacer_Victim :: "'a LRUReplacer \<Rightarrow> error + ('a option \<times> 'a LRUReplacer)" where
  "LRUReplacer_Victim r =
     (if lru_id2node r = [] then Inr (None, r)
      else if lru_list r = [] then Inl AssertionFailed
      else let v = snd (last (lru_list r))
           in Inr (Some v, \<lparr>lru_list = butlast (lru_list r),
                            lru_id2node = AList.delete v (lru_id2node r)\<rparr>))"

definition LRUReplacer_Erase :: "'a \<Rightarrow> 'a LRUReplacer \<Rightarrow> bool \<times> 'a LRUReplacer" where
  "LRUReplacer_Erase v r =
     (case map_of (lru_id2node r) v of
        None \<Rightarrow> (False, r)
      | Some n \<Rightarrow> (True, \<lparr>lru_list = list_erase n (lru_list r),
                          lru_id2node = AList.delete v (lru_id2node r)\<rparr>))"

definition LRUReplacer_Size :: "'a LRUReplacer \<Rightarrow> nat" where
  "LRUReplacer_Size r = length (lru_id2node r)"

text \<open>The sequence of values the replacer holds, most recently inserted first.\<close>

definition lru_values :: "'a LRUReplacer \<Rightarrow> 'a list" where
  "lru_values r = map snd (lru_list r)"

text \<open>The replacers a program can build: from the constructor, by the three mutators.\<close>

inductive lru_reachable :: "'a LRUReplacer \<Rightarrow> bool" where
  lru_new: "lru_reachable LRUReplacer_new"
| lru_insert: "lru_reachable r \<Longrightarrow> lru_reachable (LRUReplacer_Insert v r)"
| lru_victim: "lru_reachable r \<Longrightarrow> LRUReplacer_Victim r = Inr (x, r') \<Longrightarrow> lru_reachable r'"
| lru_erase: "lru_reachable r \<Longrightarrow> lru_reachable (snd (LRUReplacer_Erase v r))"

text \<open>
  The representation invariant of the class: node identities and values are each
  unique, and the index holds exactly the pairs of the list.
\<close>

definition lru_inv :: "'a LRUReplacer \<Rightarrow> bool" where
  "lru_inv r \<longleftrightarrow>
     distinct (map fst (lru_list r)) \<and> distinct (map snd (lru_list r)) \<and>
     distinct (map fst (lru_id2node r)) \<and>
     (\<forall>v n. map_of (lru_id2node r) v = Some n \<longleftrightarrow> (n, v) \<in> set (lru_list r))"

section \<open>The page object (\<^verbatim>\<open>Page\<close>)\<close>

text \<open>
  Page identifiers (\<^verbatim>\<open>page_id_t\<close>) and pin counts are C++ \<^verbatim>\<open>int\<close>s. They are modelled
  as unbounded integers: the model does not cover a run that pins one page, or
  allocates pages, \<open>2^31\<close> times.
\<close>

type_synonym page_id_t = int

record page =
  data :: "char list"
  page_id :: page_id_t
  pin_count :: int
  is_dirty :: bool

text \<open>
  Modelled from the spec: the header that declares \<^verbatim>\<open>INVALID_PAGE_ID\<close> and \<^verbatim>\<open>PAGE_SIZE\<close>
  is missing. The spec reserves a sentinel identifier and fixes the page size at build
  time, "typically 4096 bytes".
\<close>

definition INVALID_PAGE_ID :: page_id_t where
  "INVALID_PAGE_ID = - 1"

definition PAGE_SIZE :: nat where
  "PAGE_SIZE = 4096"

definition zero_data :: "char list" where
  "zero_data = replicate PAGE_SIZE (CHR 0x00)"

text \<open>
  Modelled from the spec: the class \<^verbatim>\<open>Page\<close> is missing. A frame owns a byte buffer, a
  page identifier "(or \<^verbatim>\<open>INVALID_PAGE_ID\<close> when free)", a pin count and a dirty flag; a
  frame that was never used holds zeros, no page, no pin and is clean. Resetting a frame
  clears "buffer, pin count, dirty flag", and a frame in the free list has the invalid
  identifier, so the reset clears the identifier as well.
\<close>

definition Page_new :: page where
  "Page_new = \<lparr>data = zero_data, page_id = INVALID_PAGE_ID, pin_count = 0, is_dirty = False\<rparr>"

definition Reset :: "page \<Rightarrow> page" where
  "Reset p = p\<lparr>data := zero_data, page_id := INVALID_PAGE_ID, pin_count := 0, is_dirty := False\<rparr>"

definition SetPageId :: "page_id_t \<Rightarrow> page \<Rightarrow> page" where
  "SetPageId pid p = p\<lparr>page_id := pid\<rparr>"

definition IncreasePinCount :: "page \<Rightarrow> page" where
  "IncreasePinCount p = p\<lparr>pin_count := pin_count p + 1\<rparr>"

definition DecreasePinCount :: "page \<Rightarrow> page" where
  "DecreasePinCount p = p\<lparr>pin_count := pin_count p - 1\<rparr>"

definition SetDirty :: "bool \<Rightarrow> page \<Rightarrow> page" where
  "SetDirty b p = p\<lparr>is_dirty := b\<rparr>"

section \<open>The disk manager (\<^verbatim>\<open>DiskManager\<close>)\<close>

text \<open>
  Modelled from the spec: the class \<^verbatim>\<open>DiskManager\<close> is missing. Its contract: a read
  yields what was last written to the page and zeros for a page never written, a write
  persists the buffer, \<^verbatim>\<open>AllocatePage\<close> returns a fresh identifier, \<^verbatim>\<open>DeallocatePage\<close>
  marks an identifier reusable. The state is the history of the calls: the writes,
  newest first, the next identifier to hand out, and the identifiers deallocated.
\<close>

record disk_manager =
  written :: "(page_id_t \<times> char list) list"
  next_page_id :: page_id_t
  deallocated :: "page_id_t list"

definition ReadPage :: "disk_manager \<Rightarrow> page_id_t \<Rightarrow> char list" where
  "ReadPage d pid = (case map_of (written d) pid of Some b \<Rightarrow> b | None \<Rightarrow> zero_data)"

definition WritePage :: "page_id_t \<Rightarrow> char list \<Rightarrow> disk_manager \<Rightarrow> disk_manager" where
  "WritePage pid b d = d\<lparr>written := (pid, b) # written d\<rparr>"

definition AllocatePage :: "disk_manager \<Rightarrow> page_id_t \<times> disk_manager" where
  "AllocatePage d = (next_page_id d, d\<lparr>next_page_id := next_page_id d + 1\<rparr>)"

definition DeallocatePage :: "page_id_t \<Rightarrow> disk_manager \<Rightarrow> disk_manager" where
  "DeallocatePage pid d = d\<lparr>deallocated := pid # deallocated d\<rparr>"

text \<open>A new database file: nothing written, identifiers handed out from 0.\<close>

definition DiskManager_new :: disk_manager where
  "DiskManager_new = \<lparr>written = [], next_page_id = 0, deallocated = []\<rparr>"

section \<open>The page table (\<^verbatim>\<open>ExtendibleHash<page_id_t, Page *>\<close>)\<close>

text \<open>
  Modelled from the spec: the class \<^verbatim>\<open>ExtendibleHash\<close> is missing. The page table is a
  mapping with unique keys and the operations \<^verbatim>\<open>Find\<close>, \<^verbatim>\<open>Insert\<close> (which may overwrite) and
  \<^verbatim>\<open>Remove\<close>; \<^verbatim>\<open>Find\<close> leaves its reference parameter alone when the key is absent.
\<close>

type_synonym frame = nat

definition ExtendibleHash_Find :: "('k \<times> 'v) list \<Rightarrow> 'k \<Rightarrow> 'v option" where
  "ExtendibleHash_Find t k = map_of t k"

definition ExtendibleHash_Insert :: "'k \<Rightarrow> 'v \<Rightarrow> ('k \<times> 'v) list \<Rightarrow> ('k \<times> 'v) list" where
  "ExtendibleHash_Insert k v t = AList.update k v t"

definition ExtendibleHash_Remove :: "'k \<Rightarrow> ('k \<times> 'v) list \<Rightarrow> ('k \<times> 'v) list" where
  "ExtendibleHash_Remove k t = AList.delete k t"

section \<open>The buffer pool manager (\<^verbatim>\<open>BufferPoolManager\<close>)\<close>

text \<open>
  A \<^verbatim>\<open>Page *\<close> is the address of a frame; \<open>pages\<close> is the store that maps an address to
  the page object there. The frames of the pool are the addresses below \<open>pool_size\<close>. A
  local \<^verbatim>\<open>Page *\<close> variable that may be null is a \<open>frame option\<close>.

  The member \<^verbatim>\<open>dirty_pages_\<close> is declared in the missing header; the code uses it as a
  map from a page identifier to a \<^verbatim>\<open>Page *\<close> (\<^verbatim>\<open>operator[]\<close>, \<^verbatim>\<open>find\<close>, \<^verbatim>\<open>erase\<close>, iteration
  over the entries). It is modelled as a \<^verbatim>\<open>std::map\<close>: the entries in ascending order of
  their keys, which is the order in which \<^verbatim>\<open>std::for_each\<close> visits them.
  \<open>std_map_assign\<close> is \<^verbatim>\<open>m[k] = v\<close>: it replaces the value of a key that is present and
  puts a new key at its place in the order. \<^verbatim>\<open>erase\<close> is \<open>AList.delete\<close>, which keeps the
  order of the remaining entries.
\<close>

fun std_map_assign :: "'k::linorder \<Rightarrow> 'v \<Rightarrow> ('k \<times> 'v) list \<Rightarrow> ('k \<times> 'v) list" where
  "std_map_assign k v [] = [(k, v)]"
| "std_map_assign k v (e # es) =
     (if k < fst e then (k, v) # e # es
      else if k = fst e then (k, v) # es
      else e # std_map_assign k v es)"

record buffer_pool =
  pool_size :: nat
  pages :: "frame \<Rightarrow> page"
  page_table :: "(page_id_t \<times> frame) list"
  replacer :: "frame LRUReplacer"
  free_list :: "frame list"
  dirty_pages :: "(page_id_t \<times> frame) list"
  disk :: disk_manager

text \<open>The constructor, on the database file \<open>d\<close>: every frame goes into the free list.\<close>

definition BufferPoolManager :: "nat \<Rightarrow> disk_manager \<Rightarrow> buffer_pool" where
  "BufferPoolManager n d =
     \<lparr>pool_size = n, pages = (\<lambda>_. Page_new), page_table = [], replacer = LRUReplacer_new,
      free_list = [0..<n], dirty_pages = [], disk = d\<rparr>"

definition releaseDirty :: "frame \<Rightarrow> buffer_pool \<Rightarrow> buffer_pool" where
  "releaseDirty f s =
     (let s1 = (if is_dirty (pages s f)
                then s\<lparr>disk := WritePage (page_id (pages s f)) (data (pages s f)) (disk s),
                       pages := (pages s)(f := SetDirty False (pages s f))\<rparr>
                else s)
      in s1\<lparr>page_table := ExtendibleHash_Remove (page_id (pages s1 f)) (page_table s1)\<rparr>)"

text \<open>
  The statement that finds a frame to reuse, lines 61 to 68 of \<^verbatim>\<open>FetchPage\<close> and, word
  for word, lines 217 to 224 of \<^verbatim>\<open>allocatePage\<close>: the front of the free list, else a
  victim of the replacer, released; \<open>None\<close> is the \<^verbatim>\<open>return nullptr\<close> of the last branch.
\<close>

definition find_replacement :: "buffer_pool \<Rightarrow> error + (frame option \<times> buffer_pool)" where
  "find_replacement s =
     (case free_list s of
        f # fs \<Rightarrow> Inr (Some f, s\<lparr>free_list := fs\<rparr>)
      | [] \<Rightarrow>
          (case LRUReplacer_Victim (replacer s) of
             Inl e \<Rightarrow> Inl e
           | Inr (Some f, r') \<Rightarrow> Inr (Some f, releaseDirty f (s\<lparr>replacer := r'\<rparr>))
           | Inr (None, r') \<Rightarrow> Inr (None, s\<lparr>replacer := r'\<rparr>)))"

definition FetchPage :: "buffer_pool \<Rightarrow> page_id_t \<Rightarrow> error + (frame option \<times> buffer_pool)" where
  "FetchPage s pid =
     (if pid = INVALID_PAGE_ID then Inr (None, s)
      else case ExtendibleHash_Find (page_table s) pid of
        Some f \<Rightarrow> Inr (Some f, s\<lparr>pages := (pages s)(f := IncreasePinCount (pages s f))\<rparr>)
      | None \<Rightarrow>
          (case find_replacement s of
             Inl e \<Rightarrow> Inl e
           | Inr (None, s1) \<Rightarrow> Inr (None, s1)
           | Inr (Some f, s1) \<Rightarrow>
               (let p = IncreasePinCount (SetPageId pid (Reset (pages s1 f)));
                    p' = p\<lparr>data := ReadPage (disk s1) pid\<rparr>
                in Inr (Some f, s1\<lparr>pages := (pages s1)(f := p'),
                                   page_table := ExtendibleHash_Insert pid f (page_table s1)\<rparr>))))"

text \<open>
  \<^verbatim>\<open>assert(page != nullptr)\<close> after a successful \<^verbatim>\<open>Find\<close> holds by the type of the page
  table, whose values are frames.
\<close>

definition UnpinPage :: "buffer_pool \<Rightarrow> page_id_t \<Rightarrow> bool \<Rightarrow> bool \<times> buffer_pool" where
  "UnpinPage s pid dirty =
     (case ExtendibleHash_Find (page_table s) pid of
        Some f \<Rightarrow>
          (if pin_count (pages s f) > 0 then
             (let s1 = s\<lparr>pages := (pages s)(f := DecreasePinCount (pages s f))\<rparr>
              in if pin_count (pages s1 f) = 0 then
                   (let s2 = (if dirty
                              then s1\<lparr>pages := (pages s1)(f := SetDirty True (pages s1 f)),
                                      dirty_pages := std_map_assign pid f (dirty_pages s1)\<rparr>
                              else s1)
                    in (True, s2\<lparr>replacer := LRUReplacer_Insert f (replacer s2)\<rparr>))
                 else (True, s1))
           else (False, s))
      | None \<Rightarrow> (False, s))"

text \<open>
  \<^verbatim>\<open>FlushPage\<close> reads \<^verbatim>\<open>page->GetPageId()\<close> in its first assertion, before it looks at
  \<^verbatim>\<open>found\<close>; when the page is absent \<^verbatim>\<open>page\<close> is still the null pointer.
\<close>

definition FlushPage :: "buffer_pool \<Rightarrow> page_id_t \<Rightarrow> error + (bool \<times> buffer_pool)" where
  "FlushPage s pid =
     (if pid = INVALID_PAGE_ID then Inr (False, s)
      else case ExtendibleHash_Find (page_table s) pid of
        None \<Rightarrow> Inl NullDereference
      | Some f \<Rightarrow>
          (if page_id (pages s f) \<noteq> pid then Inl AssertionFailed
           else if page_id (pages s f) = INVALID_PAGE_ID then Inl AssertionFailed
           else if is_dirty (pages s f) then
             (let s1 = s\<lparr>disk := WritePage pid (data (pages s f)) (disk s),
                         pages := (pages s)(f := SetDirty False (pages s f))\<rparr>
              in case map_of (dirty_pages s1) pid of
                   None \<Rightarrow> Inl AssertionFailed
                 | Some _ \<Rightarrow> Inr (True, s1\<lparr>dirty_pages := AList.delete pid (dirty_pages s1)\<rparr>))
           else Inr (False, s)))"

text \<open>The body of the lambda that \<^verbatim>\<open>FlushAllPages\<close> runs on each entry of \<^verbatim>\<open>dirty_pages_\<close>.\<close>

definition flush_entry :: "page_id_t \<times> frame \<Rightarrow> buffer_pool \<Rightarrow> buffer_pool" where
  "flush_entry p s =
     (if is_dirty (pages s (snd p))
      then s\<lparr>disk := WritePage (fst p) (data (pages s (snd p))) (disk s),
             pages := (pages s)(snd p := SetDirty False (pages s (snd p)))\<rparr>
      else s)"

definition FlushAllPages :: "buffer_pool \<Rightarrow> buffer_pool" where
  "FlushAllPages s = (fold flush_entry (dirty_pages s) s)\<lparr>dirty_pages := []\<rparr>"

definition DeletePage :: "buffer_pool \<Rightarrow> page_id_t \<Rightarrow> bool \<times> buffer_pool" where
  "DeletePage s pid =
     (case ExtendibleHash_Find (page_table s) pid of
        Some f \<Rightarrow>
          (if pin_count (pages s f) = 0
           then (False, s\<lparr>page_table := ExtendibleHash_Remove pid (page_table s),
                          replacer := snd (LRUReplacer_Erase f (replacer s)),
                          dirty_pages := AList.delete pid (dirty_pages s),
                          disk := DeallocatePage pid (disk s),
                          pages := (pages s)(f := Reset (pages s f)),
                          free_list := free_list s @ [f]\<rparr>)
           else (False, s))
      | None \<Rightarrow> (False, s))"

text \<open>
  \<^verbatim>\<open>allocatePage\<close> and \<^verbatim>\<open>NewPage\<close> take the caller's \<^verbatim>\<open>page_id\<close> by reference; the model
  takes its value and returns the value it has afterwards, next to the \<^verbatim>\<open>Page *\<close>.
\<close>

definition allocatePage ::
    "buffer_pool \<Rightarrow> page_id_t \<Rightarrow> error + ((frame option \<times> page_id_t) \<times> buffer_pool)" where
  "allocatePage s out =
     (case find_replacement s of
        Inl e \<Rightarrow> Inl e
      | Inr (None, s1) \<Rightarrow> Inr ((None, out), s1)
      | Inr (Some f, s1) \<Rightarrow>
          (let (id, d) = AllocatePage (disk s1);
               s2 = s1\<lparr>disk := d\<rparr>;
               p = IncreasePinCount (SetPageId id (Reset (pages s2 f)));
               p' = p\<lparr>data := ReadPage (disk s2) id\<rparr>
           in Inr ((Some f, id), s2\<lparr>pages := (pages s2)(f := p'),
                                     page_table := ExtendibleHash_Insert id f (page_table s2)\<rparr>)))"

definition NewPage ::
    "buffer_pool \<Rightarrow> page_id_t \<Rightarrow> error + ((frame option \<times> page_id_t) \<times> buffer_pool)" where
  "NewPage s out = allocatePage s out"

section \<open>Clients of the pool\<close>

text \<open>
  What a client can do to a pool: the six public operations, and a write into the buffer
  of a frame it holds a pin on. A client fetches the pages that exist, that is
  identifiers the disk manager has handed out; \<open>valid_call\<close> says so.
\<close>

datatype call =
    CallFetchPage page_id_t
  | CallNewPage
  | CallUnpinPage page_id_t bool
  | CallFlushPage page_id_t
  | CallFlushAllPages
  | CallDeletePage page_id_t
  | CallWrite frame "char list"

fun step :: "buffer_pool \<Rightarrow> call \<Rightarrow> error + buffer_pool" where
  "step s (CallFetchPage pid) = (case FetchPage s pid of Inl e \<Rightarrow> Inl e | Inr (_, s') \<Rightarrow> Inr s')"
| "step s CallNewPage = (case NewPage s INVALID_PAGE_ID of Inl e \<Rightarrow> Inl e | Inr (_, s') \<Rightarrow> Inr s')"
| "step s (CallUnpinPage pid dirty) = Inr (snd (UnpinPage s pid dirty))"
| "step s (CallFlushPage pid) = (case FlushPage s pid of Inl e \<Rightarrow> Inl e | Inr (_, s') \<Rightarrow> Inr s')"
| "step s CallFlushAllPages = Inr (FlushAllPages s)"
| "step s (CallDeletePage pid) = Inr (snd (DeletePage s pid))"
| "step s (CallWrite f b) = Inr (s\<lparr>pages := (pages s)(f := (pages s f)\<lparr>data := b\<rparr>)\<rparr>)"

fun valid_call :: "buffer_pool \<Rightarrow> call \<Rightarrow> bool" where
  "valid_call s (CallFetchPage pid) = (pid < next_page_id (disk s))"
| "valid_call s (CallWrite f b) = (0 < pin_count (pages s f) \<and> length b = PAGE_SIZE)"
| "valid_call s _ = True"

fun run :: "buffer_pool \<Rightarrow> call list \<Rightarrow> error + buffer_pool" where
  "run s [] = Inr s"
| "run s (c # cs) = (case step s c of Inl e \<Rightarrow> Inl e | Inr s' \<Rightarrow> run s' cs)"

fun valid_run :: "buffer_pool \<Rightarrow> call list \<Rightarrow> bool" where
  "valid_run s [] = True"
| "valid_run s (c # cs) =
     (valid_call s c \<and> (case step s c of Inl e \<Rightarrow> True | Inr s' \<Rightarrow> valid_run s' cs))"

inductive reachable :: "buffer_pool \<Rightarrow> bool" where
  reachable_init: "reachable (BufferPoolManager n d)"
| reachable_step: "reachable s \<Longrightarrow> valid_call s c \<Longrightarrow> step s c = Inr s' \<Longrightarrow> reachable s'"

text \<open>
  The invariant of the pool that the operations keep: the replacer is well formed; a
  page table entry leads to the frame that holds the page; a dirty frame is the frame of
  its page in the page table and in the dirty set; the frames of the free list are
  distinct and in no page table entry; a frame in the replacer is the frame of its page
  in the page table; the disk manager has handed out every identifier of the page table.
\<close>

definition pool_inv :: "buffer_pool \<Rightarrow> bool" where
  "pool_inv s \<longleftrightarrow>
     lru_inv (replacer s) \<and>
     (\<forall>pid f. map_of (page_table s) pid = Some f \<longrightarrow> page_id (pages s f) = pid) \<and>
     (\<forall>f. is_dirty (pages s f) \<longrightarrow>
          map_of (page_table s) (page_id (pages s f)) = Some f \<and>
          map_of (dirty_pages s) (page_id (pages s f)) = Some f) \<and>
     distinct (free_list s) \<and>
     (\<forall>f \<in> set (free_list s). \<forall>pid. map_of (page_table s) pid \<noteq> Some f) \<and>
     (\<forall>f \<in> set (lru_values (replacer s)). map_of (page_table s) (page_id (pages s f)) = Some f) \<and>
     (\<forall>pid f. map_of (page_table s) pid = Some f \<longrightarrow> pid < next_page_id (disk s))"

text \<open>A frame that no page table entry, free list slot or replacer node refers to.\<close>

definition unbound :: "buffer_pool \<Rightarrow> frame \<Rightarrow> bool" where
  "unbound s f \<longleftrightarrow>
     (\<forall>pid. map_of (page_table s) pid \<noteq> Some f) \<and> f \<notin> set (free_list s) \<and>
     f \<notin> set (lru_values (replacer s))"

section \<open>The representation invariant of the replacer\<close>

lemma foldr_max_ge: "n \<in> set ns \<Longrightarrow> n \<le> foldr max ns (0::nat)"
  by (induction ns) (auto simp: max_def)

lemma new_node_ge: "n \<in> fst ` set l \<Longrightarrow> n < new_node l"
  using foldr_max_ge [of n "map fst l"] by (simp add: new_node_def)

lemma lru_inv_new: "lru_inv LRUReplacer_new"
  by (simp add: lru_inv_def LRUReplacer_new_def)

text \<open>Under the invariant, erasing the node of a value removes exactly that value.\<close>

lemma list_erase_by_value:
  assumes "lru_inv r" and "map_of (lru_id2node r) v = Some n"
  shows "list_erase n (lru_list r) = filter (\<lambda>nd. snd nd \<noteq> v) (lru_list r)"
proof -
  have mem: "(n, v) \<in> set (lru_list r)"
    using assms by (simp add: lru_inv_def)
  have d1: "distinct (map fst (lru_list r))" and d2: "distinct (map snd (lru_list r))"
    using assms(1) by (simp_all add: lru_inv_def)
  have "\<And>nd. nd \<in> set (lru_list r) \<Longrightarrow> (fst nd \<noteq> n) = (snd nd \<noteq> v)"
  proof -
    fix nd assume nd: "nd \<in> set (lru_list r)"
    have "fst nd = n \<Longrightarrow> nd = (n, v)"
      using d1 nd mem by (metis eq_key_imp_eq_value prod.collapse)
    moreover have "snd nd = v \<Longrightarrow> nd = (n, v)"
      using d2 nd mem by (metis (no_types, lifting) distinct_map inj_onD snd_conv)
    ultimately show "(fst nd \<noteq> n) = (snd nd \<noteq> v)" by (metis fst_conv snd_conv)
  qed
  then show ?thesis
    unfolding list_erase_def by (intro filter_cong) auto
qed

lemma absent_value:
  assumes "lru_inv r" and "map_of (lru_id2node r) v = None"
  shows "v \<notin> snd ` set (lru_list r)"
proof
  assume "v \<in> snd ` set (lru_list r)"
  then obtain n where "(n, v) \<in> set (lru_list r)" by force
  with assms show False by (auto simp: lru_inv_def)
qed

lemma values_filter: "map snd (filter (\<lambda>nd. snd nd \<noteq> v) l) = removeAll v (map snd l)"
  by (induction l) auto

lemma lru_values_Insert:
  assumes "lru_inv r"
  shows "lru_values (LRUReplacer_Insert v r) = v # removeAll v (lru_values r)"
proof (cases "map_of (lru_id2node r) v")
  case None
  from absent_value [OF assms None] have "removeAll v (map snd (lru_list r)) = map snd (lru_list r)"
    by (simp add: removeAll_id)
  with None show ?thesis
    by (simp add: LRUReplacer_Insert_def lru_values_def Let_def)
next
  case (Some n)
  with list_erase_by_value [OF assms Some] show ?thesis
    by (simp add: LRUReplacer_Insert_def lru_values_def Let_def values_filter)
qed

lemma lru_values_Erase:
  assumes "lru_inv r"
  shows "lru_values (snd (LRUReplacer_Erase v r)) = removeAll v (lru_values r)"
proof (cases "map_of (lru_id2node r) v")
  case None
  from absent_value [OF assms None] have "removeAll v (map snd (lru_list r)) = map snd (lru_list r)"
    by (simp add: removeAll_id)
  with None show ?thesis
    by (simp add: LRUReplacer_Erase_def lru_values_def)
next
  case (Some n)
  with list_erase_by_value [OF assms Some] show ?thesis
    by (simp add: LRUReplacer_Erase_def lru_values_def values_filter)
qed

lemma lru_empty_iff:
  assumes "lru_inv r"
  shows "lru_id2node r = [] \<longleftrightarrow> lru_list r = []"
proof
  assume e: "lru_id2node r = []"
  show "lru_list r = []"
  proof (cases "lru_list r")
    case (Cons nd l)
    then have "(fst nd, snd nd) \<in> set (lru_list r)" by simp
    with assms have "map_of (lru_id2node r) (snd nd) = Some (fst nd)"
      unfolding lru_inv_def by blast
    with e show ?thesis by simp
  qed simp
next
  assume e: "lru_list r = []"
  show "lru_id2node r = []"
  proof (cases "lru_id2node r")
    case (Cons kv al)
    then have "map_of (lru_id2node r) (fst kv) = Some (snd kv)" by (cases kv) simp
    with assms have "(snd kv, fst kv) \<in> set (lru_list r)"
      unfolding lru_inv_def by blast
    with e show ?thesis by simp
  qed simp
qed

lemma lru_Victim_value:
  assumes "lru_inv r" and "lru_values r \<noteq> []"
  shows "LRUReplacer_Victim r =
           Inr (Some (last (lru_values r)),
                \<lparr>lru_list = butlast (lru_list r),
                 lru_id2node = AList.delete (last (lru_values r)) (lru_id2node r)\<rparr>)"
proof -
  from assms(2) have ne: "lru_list r \<noteq> []" by (simp add: lru_values_def)
  with lru_empty_iff [OF assms(1)] have "lru_id2node r \<noteq> []" by simp
  with ne show ?thesis
    by (simp add: LRUReplacer_Victim_def lru_values_def Let_def last_map)
qed

lemma lru_Victim_empty:
  assumes "lru_inv r"
  shows "LRUReplacer_Victim r = Inr (None, r) \<longleftrightarrow> lru_values r = []"
  using lru_empty_iff [OF assms]
  by (auto simp: LRUReplacer_Victim_def lru_values_def Let_def)

lemma lru_inv_Insert:
  assumes "lru_inv r"
  shows "lru_inv (LRUReplacer_Insert v r)"
proof -
  define l where "l = (case map_of (lru_id2node r) v of
                 Some n \<Rightarrow> list_erase n (lru_list r) | None \<Rightarrow> lru_list r)"
  have l_eq: "l = filter (\<lambda>nd. snd nd \<noteq> v) (lru_list r)"
  proof (cases "map_of (lru_id2node r) v")
    case None
    from absent_value [OF assms None]
    have "filter (\<lambda>nd. snd nd \<noteq> v) (lru_list r) = lru_list r"
      by (intro filter_True) auto
    with None show ?thesis by (simp add: l_def)
  next
    case (Some n)
    with list_erase_by_value [OF assms Some] show ?thesis by (simp add: l_def)
  qed
  have ins: "LRUReplacer_Insert v r =
      \<lparr>lru_list = (new_node l, v) # l, lru_id2node = AList.update v (new_node l) (lru_id2node r)\<rparr>"
    by (simp add: LRUReplacer_Insert_def l_def Let_def)
  have d1: "distinct (map fst (lru_list r))" and d2: "distinct (map snd (lru_list r))"
    and d3: "distinct (map fst (lru_id2node r))"
    and ix: "\<And>w n. map_of (lru_id2node r) w = Some n \<longleftrightarrow> (n, w) \<in> set (lru_list r)"
    using assms by (simp_all add: lru_inv_def)
  have "distinct (map fst l)"
    using d1 by (simp add: l_eq distinct_map_filter)
  moreover have "new_node l \<notin> fst ` set l"
    using new_node_ge [of "new_node l" l] by auto
  moreover have "distinct (map snd l)"
    using d2 by (simp add: l_eq distinct_map_filter)
  moreover have "v \<notin> snd ` set l"
    by (auto simp: l_eq)
  moreover have "distinct (map fst (AList.update v (new_node l) (lru_id2node r)))"
    using d3 by (rule distinct_update)
  moreover have "\<And>w n. map_of (AList.update v (new_node l) (lru_id2node r)) w = Some n
      \<longleftrightarrow> (n, w) \<in> set ((new_node l, v) # l)"
    by (auto simp: update_conv' ix l_eq)
  ultimately show ?thesis
    unfolding ins lru_inv_def by simp
qed

lemma lru_inv_remove_value:
  assumes "lru_inv r"
  shows "lru_inv \<lparr>lru_list = filter (\<lambda>nd. snd nd \<noteq> v) (lru_list r),
                  lru_id2node = AList.delete v (lru_id2node r)\<rparr>"
  using assms
  by (auto simp: lru_inv_def distinct_map_filter distinct_delete delete_conv')

lemma lru_inv_Erase:
  assumes "lru_inv r"
  shows "lru_inv (snd (LRUReplacer_Erase v r))"
proof (cases "map_of (lru_id2node r) v")
  case None
  with assms show ?thesis by (simp add: LRUReplacer_Erase_def)
next
  case (Some n)
  with list_erase_by_value [OF assms Some] lru_inv_remove_value [OF assms, of v]
  show ?thesis by (simp add: LRUReplacer_Erase_def)
qed

lemma butlast_by_value:
  assumes "distinct (map snd l)" and "l \<noteq> []"
  shows "butlast l = filter (\<lambda>nd. snd nd \<noteq> snd (last l)) l"
proof -
  from assms(2) obtain ys y where l: "l = ys @ [y]"
    by (metis append_butlast_last_id)
  with assms(1) have "snd y \<notin> snd ` set ys" by simp
  then have "\<forall>nd \<in> set ys. snd nd \<noteq> snd y" by (metis imageI)
  then have "filter (\<lambda>nd. snd nd \<noteq> snd y) ys = ys" by (intro filter_True) auto
  with l show ?thesis by simp
qed

lemma lru_inv_Victim:
  assumes "lru_inv r" and "LRUReplacer_Victim r = Inr (x, r')"
  shows "lru_inv r'"
proof (cases "lru_id2node r = []")
  case True
  with assms show ?thesis by (simp add: LRUReplacer_Victim_def)
next
  case False
  with lru_empty_iff [OF assms(1)] have ne: "lru_list r \<noteq> []" by simp
  have "distinct (map snd (lru_list r))" using assms(1) by (simp add: lru_inv_def)
  from butlast_by_value [OF this ne] False ne assms(2)
  have "r' = \<lparr>lru_list = filter (\<lambda>nd. snd nd \<noteq> snd (last (lru_list r))) (lru_list r),
              lru_id2node = AList.delete (snd (last (lru_list r))) (lru_id2node r)\<rparr>"
    by (simp add: LRUReplacer_Victim_def Let_def)
  with lru_inv_remove_value [OF assms(1)] show ?thesis by simp
qed

lemma lru_Size:
  assumes "lru_inv r"
  shows "LRUReplacer_Size r = length (lru_values r)"
proof -
  have d1: "distinct (map fst (lru_id2node r))" and d2: "distinct (map snd (lru_list r))"
    and ix: "\<And>v n. map_of (lru_id2node r) v = Some n \<longleftrightarrow> (n, v) \<in> set (lru_list r)"
    using assms by (simp_all add: lru_inv_def)
  have "set (map fst (lru_id2node r)) = set (map snd (lru_list r))"
  proof (intro set_eqI iffI)
    fix v assume "v \<in> set (map fst (lru_id2node r))"
    then obtain n where "map_of (lru_id2node r) v = Some n"
      by (metis list.set_map map_of_eq_None_iff not_Some_eq)
    then have "(n, v) \<in> set (lru_list r)" by (simp add: ix)
    then show "v \<in> set (map snd (lru_list r))" by force
  next
    fix v assume "v \<in> set (map snd (lru_list r))"
    then obtain n where "(n, v) \<in> set (lru_list r)" by auto
    then have "map_of (lru_id2node r) v = Some n" by (simp add: ix)
    then show "v \<in> set (map fst (lru_id2node r))"
      by (metis list.set_map map_of_eq_None_iff option.distinct(1))
  qed
  then have "card (set (map fst (lru_id2node r))) = card (set (map snd (lru_list r)))" by simp
  then have "length (map fst (lru_id2node r)) = length (map snd (lru_list r))"
    using d1 d2 by (simp only: distinct_card)
  then show ?thesis by (simp add: LRUReplacer_Size_def lru_values_def)
qed

lemma lru_reachable_inv: "lru_reachable r \<Longrightarrow> lru_inv r"
  by (induction rule: lru_reachable.induct)
     (auto intro: lru_inv_new lru_inv_Insert lru_inv_Victim lru_inv_Erase)

lemma lru_inv_distinct: "lru_inv r \<Longrightarrow> distinct (lru_values r)"
  by (simp add: lru_inv_def lru_values_def)

section \<open>The invariant of the pool\<close>

lemmas page_ops = Reset_def SetPageId_def IncreasePinCount_def DecreasePinCount_def SetDirty_def

lemma map_of_std_map_assign: "map_of (std_map_assign k v l) = (map_of l)(k \<mapsto> v)"
  by (induction l) (auto simp: fun_eq_iff)

lemma keys_std_map_assign: "fst ` set (std_map_assign k v l) = insert k (fst ` set l)"
  by (induction l) auto

lemma sorted_std_map_assign:
  "sorted_wrt (<) (map fst l) \<Longrightarrow> sorted_wrt (<) (map fst (std_map_assign k v l))"
proof (induction l)
  case Nil
  show ?case by simp
next
  case (Cons e es)
  then have "\<forall>x \<in> fst ` set (std_map_assign k v es). x = k \<or> fst e < x"
    by (auto simp: keys_std_map_assign)
  with Cons show ?case by (auto simp: image_iff)
qed

lemma sorted_delete:
  "sorted_wrt (<) (map fst l) \<Longrightarrow> sorted_wrt (<) (map fst (AList.delete k l))"
  by (simp add: delete_keys removeAll_filter_not_eq sorted_wrt_filter)

lemma pool_inv_init: "pool_inv (BufferPoolManager n d)"
  using lru_inv_new [where 'a = frame]
  by (simp add: pool_inv_def BufferPoolManager_def Page_new_def lru_values_def
      LRUReplacer_new_def)

text \<open>A change of the pages that keeps every identifier and dirty flag keeps the invariant.\<close>

lemma pool_inv_pages:
  assumes "pool_inv s"
    and "\<And>f. page_id (pg f) = page_id (pages s f)"
    and "\<And>f. is_dirty (pg f) = is_dirty (pages s f)"
  shows "pool_inv (s\<lparr>pages := pg\<rparr>)"
  using assms unfolding pool_inv_def by simp

lemma butlast_last_notin:
  assumes "distinct xs" and "xs \<noteq> []"
  shows "last xs \<notin> set (butlast xs)"
proof -
  from assms(2) have "xs = butlast xs @ [last xs]" by simp
  with assms(1) show ?thesis by (metis distinct_append disjoint_iff list.set_intros(1))
qed

lemma find_replacement_free:
  assumes "pool_inv s" and "free_list s = f # fs"
  shows "find_replacement s = Inr (Some f, s\<lparr>free_list := fs\<rparr>)"
    and "pool_inv (s\<lparr>free_list := fs\<rparr>)" and "unbound (s\<lparr>free_list := fs\<rparr>) f"
proof -
  show "find_replacement s = Inr (Some f, s\<lparr>free_list := fs\<rparr>)"
    using assms(2) by (simp add: find_replacement_def)
  show "pool_inv (s\<lparr>free_list := fs\<rparr>)"
    using assms unfolding pool_inv_def by simp
  have nopt: "\<forall>pid. map_of (page_table s) pid \<noteq> Some f"
    using assms unfolding pool_inv_def by simp
  have "f \<notin> set (lru_values (replacer s))"
  proof
    assume "f \<in> set (lru_values (replacer s))"
    with assms(1) have "map_of (page_table s) (page_id (pages s f)) = Some f"
      unfolding pool_inv_def by blast
    with nopt show False by blast
  qed
  moreover have "f \<notin> set fs" using assms unfolding pool_inv_def by simp
  ultimately show "unbound (s\<lparr>free_list := fs\<rparr>) f"
    using nopt by (simp add: unbound_def)
qed

text \<open>Two frames that the page table binds to their own pages hold different pages.\<close>

lemma bound_frames_differ:
  assumes "map_of t (page_id (pg f)) = Some f" and "map_of t (page_id (pg g)) = Some g"
    and "f \<noteq> g"
  shows "page_id (pg f) \<noteq> page_id (pg g)"
  using assms by auto

lemma releaseDirty_inv:
  assumes inv: "pool_inv s" and fl: "free_list s = []"
    and bound: "map_of (page_table s) (page_id (pages s f)) = Some f"
    and nin: "f \<notin> set (lru_values (replacer s))"
  shows "pool_inv (releaseDirty f s)" and "unbound (releaseDirty f s) f"
    and "next_page_id (disk (releaseDirty f s)) = next_page_id (disk s)"
    and "\<And>pid. map_of (page_table s) pid = None \<Longrightarrow>
           map_of (page_table (releaseDirty f s)) pid = None"
proof -
  let ?s' = "releaseDirty f s"
  have pt: "page_table ?s' = AList.delete (page_id (pages s f)) (page_table s)"
    by (simp add: releaseDirty_def Let_def ExtendibleHash_Remove_def page_ops)
  have pid: "\<And>g. page_id (pages ?s' g) = page_id (pages s g)"
    by (simp add: releaseDirty_def Let_def page_ops)
  have dirty: "\<And>g. is_dirty (pages ?s' g) = (g \<noteq> f \<and> is_dirty (pages s g))"
    by (auto simp: releaseDirty_def Let_def page_ops)
  have rest: "replacer ?s' = replacer s" "free_list ?s' = free_list s"
    "dirty_pages ?s' = dirty_pages s"
    by (simp_all add: releaseDirty_def Let_def)
  show nx: "next_page_id (disk ?s') = next_page_id (disk s)"
    by (simp add: releaseDirty_def Let_def WritePage_def)
  have I2: "\<And>p g. map_of (page_table s) p = Some g \<Longrightarrow> page_id (pages s g) = p"
    and I3: "\<And>g. is_dirty (pages s g) \<Longrightarrow>
          map_of (page_table s) (page_id (pages s g)) = Some g \<and>
          map_of (dirty_pages s) (page_id (pages s g)) = Some g"
    and I5: "\<And>g. g \<in> set (lru_values (replacer s)) \<Longrightarrow>
          map_of (page_table s) (page_id (pages s g)) = Some g"
    and I6: "\<And>p g. map_of (page_table s) p = Some g \<Longrightarrow> p < next_page_id (disk s)"
    using inv unfolding pool_inv_def by blast+
  have keep: "\<And>g. g \<noteq> f \<Longrightarrow> map_of (page_table s) (page_id (pages s g)) = Some g \<Longrightarrow>
      map_of (page_table ?s') (page_id (pages s g)) = Some g"
    using bound by (auto simp: pt delete_conv')
  have sub: "\<And>p g. map_of (page_table ?s') p = Some g \<Longrightarrow> map_of (page_table s) p = Some g"
    by (auto simp: pt delete_conv' split: if_splits)
  have gone: "\<And>p. map_of (page_table ?s') p \<noteq> Some f"
  proof
    fix p assume a: "map_of (page_table ?s') p = Some f"
    then have "map_of (page_table s) p = Some f" by (rule sub)
    then have "page_id (pages s f) = p" by (rule I2)
    with a show False by (simp add: pt delete_conv')
  qed
  show "pool_inv ?s'"
    unfolding pool_inv_def
  proof (intro conjI allI impI ballI)
    show "lru_inv (replacer ?s')" using inv by (simp add: rest pool_inv_def)
  next
    fix p g assume "map_of (page_table ?s') p = Some g"
    then show "page_id (pages ?s' g) = p" using sub I2 by (simp add: pid)
  next
    fix g assume "is_dirty (pages ?s' g)"
    then have "g \<noteq> f" "is_dirty (pages s g)" by (simp_all add: dirty)
    then show "map_of (page_table ?s') (page_id (pages ?s' g)) = Some g"
      using keep I3 by (simp add: pid)
  next
    fix g assume "is_dirty (pages ?s' g)"
    then have "is_dirty (pages s g)" by (simp add: dirty)
    then show "map_of (dirty_pages ?s') (page_id (pages ?s' g)) = Some g"
      using I3 by (simp add: pid rest)
  next
    show "distinct (free_list ?s')" by (simp add: rest fl)
  next
    fix g p assume "g \<in> set (free_list ?s')"
    then show "map_of (page_table ?s') p \<noteq> Some g" by (simp add: rest fl)
  next
    fix g assume g: "g \<in> set (lru_values (replacer ?s'))"
    then have "g \<noteq> f" using nin by (auto simp: rest)
    then show "map_of (page_table ?s') (page_id (pages ?s' g)) = Some g"
      using keep I5 g by (simp add: pid rest)
  next
    fix p g assume "map_of (page_table ?s') p = Some g"
    then show "p < next_page_id (disk ?s')" using sub I6 by (simp add: nx)
  qed
  show "unbound ?s' f"
    using gone nin by (simp add: unbound_def rest fl)
  show "\<And>pid. map_of (page_table s) pid = None \<Longrightarrow> map_of (page_table ?s') pid = None"
    by (simp add: pt delete_conv')
qed

lemma pool_inv_replacer_sub:
  assumes "pool_inv s" and "lru_inv r'" and "set (lru_values r') \<subseteq> set (lru_values (replacer s))"
  shows "pool_inv (s\<lparr>replacer := r'\<rparr>)"
  using assms unfolding pool_inv_def by auto

lemma find_replacement_Some:
  assumes inv: "pool_inv s" and fr: "find_replacement s = Inr (Some f, s1)"
  shows "pool_inv s1 \<and> unbound s1 f \<and> next_page_id (disk s1) = next_page_id (disk s) \<and>
         (\<forall>pid. map_of (page_table s) pid = None \<longrightarrow> map_of (page_table s1) pid = None)"
proof (cases "free_list s")
  case (Cons g fs)
  from find_replacement_free [OF inv Cons] fr show ?thesis by simp
next
  case Nil
  have li: "lru_inv (replacer s)" using inv by (simp add: pool_inv_def)
  show ?thesis
  proof (cases "lru_values (replacer s) = []")
    case True
    with lru_Victim_empty [OF li] Nil fr show ?thesis
      by (simp add: find_replacement_def)
  next
    case False
    let ?v = "last (lru_values (replacer s))"
    let ?r = "\<lparr>lru_list = butlast (lru_list (replacer s)),
               lru_id2node = AList.delete ?v (lru_id2node (replacer s))\<rparr>"
    have vic: "LRUReplacer_Victim (replacer s) = Inr (Some ?v, ?r)"
      by (rule lru_Victim_value [OF li False])
    with Nil fr have f: "f = ?v" and s1: "s1 = releaseDirty ?v (s\<lparr>replacer := ?r\<rparr>)"
      by (auto simp: find_replacement_def)
    have vals: "lru_values ?r = butlast (lru_values (replacer s))"
      by (simp add: lru_values_def map_butlast)
    have "lru_inv ?r" using lru_inv_Victim [OF li vic] .
    moreover have "set (lru_values ?r) \<subseteq> set (lru_values (replacer s))"
      unfolding vals by (auto dest: in_set_butlastD)
    ultimately have inv': "pool_inv (s\<lparr>replacer := ?r\<rparr>)"
      using inv by (intro pool_inv_replacer_sub)
    have "?v \<in> set (lru_values (replacer s))" using False by simp
    then have bound: "map_of (page_table s) (page_id (pages s ?v)) = Some ?v"
      using inv unfolding pool_inv_def by blast
    have nin: "?v \<notin> set (lru_values ?r)"
      unfolding vals using butlast_last_notin [OF lru_inv_distinct [OF li] False] .
    from releaseDirty_inv [of "s\<lparr>replacer := ?r\<rparr>" ?v] inv' Nil bound nin
    show ?thesis unfolding f s1 by simp
  qed
qed

lemma find_replacement_None:
  assumes inv: "pool_inv s" and fr: "find_replacement s = Inr (None, s1)"
  shows "s1 = s"
  using fr by (auto simp: find_replacement_def LRUReplacer_Victim_def Let_def
      split: list.splits sum.splits option.splits if_splits)

text \<open>Binding a page nobody holds to an unbound, clean frame keeps the invariant.\<close>

lemma install_inv:
  assumes inv: "pool_inv s" and ub: "unbound s f"
    and miss: "map_of (page_table s) pid = None"
    and lt: "pid < next_page_id d" and le: "next_page_id (disk s) \<le> next_page_id d"
    and p: "page_id p = pid" "\<not> is_dirty p"
  shows "pool_inv (s\<lparr>disk := d, pages := (pages s)(f := p),
                     page_table := AList.update pid f (page_table s)\<rparr>)"
    (is "pool_inv ?s'")
proof -
  have I2: "\<And>q g. map_of (page_table s) q = Some g \<Longrightarrow> page_id (pages s g) = q"
    and I3: "\<And>g. is_dirty (pages s g) \<Longrightarrow>
          map_of (page_table s) (page_id (pages s g)) = Some g \<and>
          map_of (dirty_pages s) (page_id (pages s g)) = Some g"
    and I4: "\<And>g q. g \<in> set (free_list s) \<Longrightarrow> map_of (page_table s) q \<noteq> Some g"
    and I5: "\<And>g. g \<in> set (lru_values (replacer s)) \<Longrightarrow>
          map_of (page_table s) (page_id (pages s g)) = Some g"
    and I6: "\<And>q g. map_of (page_table s) q = Some g \<Longrightarrow> q < next_page_id (disk s)"
    using inv unfolding pool_inv_def by blast+
  have nof: "\<And>q. map_of (page_table s) q \<noteq> Some f"
    and nfl: "f \<notin> set (free_list s)" and nre: "f \<notin> set (lru_values (replacer s))"
    using ub by (simp_all add: unbound_def)
  have pt: "\<And>q. map_of (AList.update pid f (page_table s)) q =
      (if q = pid then Some f else map_of (page_table s) q)"
    by (simp add: update_conv')
  have old: "\<And>g. map_of (page_table s) (page_id (pages s g)) = Some g \<Longrightarrow>
      g \<noteq> f \<and> map_of (AList.update pid f (page_table s)) (page_id (pages s g)) = Some g"
    using nof miss by (auto simp: pt)
  show ?thesis
    unfolding pool_inv_def
  proof (intro conjI allI impI ballI)
    show "lru_inv (replacer ?s')" using inv by (simp add: pool_inv_def)
  next
    fix q g assume "map_of (page_table ?s') q = Some g"
    then show "page_id (pages ?s' g) = q"
      using I2 nof p by (auto simp: pt split: if_splits)
  next
    fix g assume d: "is_dirty (pages ?s' g)"
    with p have "g \<noteq> f" by auto
    with d I3 [of g] old [of g] show "map_of (page_table ?s') (page_id (pages ?s' g)) = Some g"
      by simp
  next
    fix g assume d: "is_dirty (pages ?s' g)"
    with p have "g \<noteq> f" by auto
    with d I3 [of g] show "map_of (dirty_pages ?s') (page_id (pages ?s' g)) = Some g" by simp
  next
    show "distinct (free_list ?s')" using inv by (simp add: pool_inv_def)
  next
    fix g q assume "g \<in> set (free_list ?s')"
    then show "map_of (page_table ?s') q \<noteq> Some g"
      using I4 nfl by (auto simp: pt)
  next
    fix g assume "g \<in> set (lru_values (replacer ?s'))"
    then show "map_of (page_table ?s') (page_id (pages ?s' g)) = Some g"
      using I5 [of g] old [of g] by simp
  next
    fix q g assume "map_of (page_table ?s') q = Some g"
    then have "q = pid \<or> map_of (page_table s) q = Some g"
      by (auto simp: pt split: if_splits)
    then have "q = pid \<or> q < next_page_id (disk s)" using I6 by blast
    then show "q < next_page_id (disk ?s')"
      using lt le by auto
  qed
qed

text \<open>
  A change to one bound frame that keeps its identifier, with the dirty set following its
  dirty flag and the replacer gaining at most that frame, keeps the invariant.
\<close>

lemma touch_inv:
  assumes inv: "pool_inv s" and bound: "map_of (page_table s) pid = Some f"
    and same: "page_table s' = page_table s" "free_list s' = free_list s"
      "next_page_id (disk s') = next_page_id (disk s)"
    and others: "\<And>g. g \<noteq> f \<Longrightarrow> pages s' g = pages s g"
    and ident: "page_id (pages s' f) = pid"
    and dset: "is_dirty (pages s' f) \<Longrightarrow> map_of (dirty_pages s') pid = Some f"
      "\<And>q. q \<noteq> pid \<Longrightarrow> map_of (dirty_pages s') q = map_of (dirty_pages s) q"
    and repl: "lru_inv (replacer s')"
      "set (lru_values (replacer s')) \<subseteq> insert f (set (lru_values (replacer s)))"
  shows "pool_inv s'"
proof -
  have I2: "\<And>q g. map_of (page_table s) q = Some g \<Longrightarrow> page_id (pages s g) = q"
    and I3: "\<And>g. is_dirty (pages s g) \<Longrightarrow>
          map_of (page_table s) (page_id (pages s g)) = Some g \<and>
          map_of (dirty_pages s) (page_id (pages s g)) = Some g"
    and I4: "\<And>g q. g \<in> set (free_list s) \<Longrightarrow> map_of (page_table s) q \<noteq> Some g"
    and I5: "\<And>g. g \<in> set (lru_values (replacer s)) \<Longrightarrow>
          map_of (page_table s) (page_id (pages s g)) = Some g"
    and I6: "\<And>q g. map_of (page_table s) q = Some g \<Longrightarrow> q < next_page_id (disk s)"
    using inv unfolding pool_inv_def by blast+
  have ids: "\<And>g. page_id (pages s' g) = page_id (pages s g)"
    using others ident I2 [OF bound] by metis
  have other_id: "\<And>g. g \<noteq> f \<Longrightarrow> map_of (page_table s) (page_id (pages s g)) = Some g \<Longrightarrow>
      page_id (pages s g) \<noteq> pid"
    using bound by auto
  show ?thesis
    unfolding pool_inv_def
  proof (intro conjI allI impI ballI)
    show "lru_inv (replacer s')" by (rule repl)
  next
    fix q g assume "map_of (page_table s') q = Some g"
    then show "page_id (pages s' g) = q" using I2 by (simp add: same ids)
  next
    fix g assume d: "is_dirty (pages s' g)"
    show "map_of (page_table s') (page_id (pages s' g)) = Some g"
    proof (cases "g = f")
      case True
      then show ?thesis using bound ident by (simp add: same)
    next
      case False
      with d others I3 [of g] show ?thesis by (simp add: same ids)
    qed
  next
    fix g assume d: "is_dirty (pages s' g)"
    show "map_of (dirty_pages s') (page_id (pages s' g)) = Some g"
    proof (cases "g = f")
      case True
      then show ?thesis using d dset(1) ident by simp
    next
      case False
      with d others have dg: "is_dirty (pages s g)" by simp
      with I3 [of g] other_id [of g] False have "page_id (pages s g) \<noteq> pid" by simp
      with dset(2) I3 [OF dg] show ?thesis by (simp add: ids)
    qed
  next
    show "distinct (free_list s')" using inv by (simp add: same pool_inv_def)
  next
    fix g q assume "g \<in> set (free_list s')"
    then show "map_of (page_table s') q \<noteq> Some g" using I4 by (simp add: same)
  next
    fix g assume g: "g \<in> set (lru_values (replacer s'))"
    show "map_of (page_table s') (page_id (pages s' g)) = Some g"
    proof (cases "g = f")
      case True
      then show ?thesis using bound ident by (simp add: same)
    next
      case False
      with g repl(2) have "g \<in> set (lru_values (replacer s))" by auto
      then show ?thesis using I5 by (simp add: same ids)
    qed
  next
    fix q g assume "map_of (page_table s') q = Some g"
    then show "q < next_page_id (disk s')" using I6 by (simp add: same)
  qed
qed

lemma pool_inv_bound_id:
  "pool_inv s \<Longrightarrow> map_of (page_table s) pid = Some f \<Longrightarrow> page_id (pages s f) = pid"
  unfolding pool_inv_def by blast

lemma pool_inv_dirty_set:
  "pool_inv s \<Longrightarrow> map_of (page_table s) pid = Some f \<Longrightarrow> is_dirty (pages s f) \<Longrightarrow>
   map_of (dirty_pages s) pid = Some f"
  unfolding pool_inv_def by metis

lemma pool_inv_lru: "pool_inv s \<Longrightarrow> lru_inv (replacer s)"
  by (simp add: pool_inv_def)

lemma UnpinPage_inv:
  assumes inv: "pool_inv s"
  shows "pool_inv (snd (UnpinPage s pid dirty))"
proof (cases "map_of (page_table s) pid")
  case None
  with inv show ?thesis by (simp add: UnpinPage_def ExtendibleHash_Find_def)
next
  case (Some f)
  note id = pool_inv_bound_id [OF inv Some]
  note ds = pool_inv_dirty_set [OF inv Some]
  note li = pool_inv_lru [OF inv]
  show ?thesis
  proof (rule touch_inv [OF inv Some])
    show "page_id (pages (snd (UnpinPage s pid dirty)) f) = pid"
      using Some id by (simp add: UnpinPage_def ExtendibleHash_Find_def Let_def page_ops)
    show "lru_inv (replacer (snd (UnpinPage s pid dirty)))"
      using Some li lru_inv_Insert [OF li, of f]
      by (simp add: UnpinPage_def ExtendibleHash_Find_def Let_def)
    show "set (lru_values (replacer (snd (UnpinPage s pid dirty))))
        \<subseteq> insert f (set (lru_values (replacer s)))"
      using Some lru_values_Insert [OF li, of f]
      by (auto simp: UnpinPage_def ExtendibleHash_Find_def Let_def)
    show "is_dirty (pages (snd (UnpinPage s pid dirty)) f) \<Longrightarrow>
        map_of (dirty_pages (snd (UnpinPage s pid dirty))) pid = Some f"
      using Some ds
      by (auto simp: UnpinPage_def ExtendibleHash_Find_def Let_def page_ops
          map_of_std_map_assign
          split: if_splits)
    show "\<And>q. q \<noteq> pid \<Longrightarrow> map_of (dirty_pages (snd (UnpinPage s pid dirty))) q =
        map_of (dirty_pages s) q"
      using Some
      by (simp add: UnpinPage_def ExtendibleHash_Find_def Let_def map_of_std_map_assign)
  qed (use Some in \<open>simp_all add: UnpinPage_def ExtendibleHash_Find_def Let_def\<close>)
qed

lemma FetchPage_inv:
  assumes inv: "pool_inv s" and alloc: "pid < next_page_id (disk s)"
    and fp: "FetchPage s pid = Inr (r, s')"
  shows "pool_inv s'"
proof (cases "pid = INVALID_PAGE_ID")
  case True
  with fp inv show ?thesis by (simp add: FetchPage_def)
next
  case valid: False
  show ?thesis
  proof (cases "map_of (page_table s) pid")
    case (Some f)
    with valid fp have s': "s' = s\<lparr>pages := (pages s)(f := IncreasePinCount (pages s f))\<rparr>"
      by (auto simp: FetchPage_def ExtendibleHash_Find_def)
    show ?thesis unfolding s'
      by (rule pool_inv_pages [OF inv]) (simp_all add: page_ops)
  next
    case None
    show ?thesis
    proof (cases "find_replacement s")
      case (Inl e)
      with valid None fp show ?thesis
        by (simp add: FetchPage_def ExtendibleHash_Find_def)
    next
      case (Inr x)
      obtain fo s1 where x: "x = (fo, s1)" by (cases x)
      show ?thesis
      proof (cases fo)
        case fnone: None
        with Inr x find_replacement_None [OF inv, of s1] valid None fp inv show ?thesis
          by (simp add: FetchPage_def ExtendibleHash_Find_def)
      next
        case (Some f)
        with Inr x have fr: "find_replacement s = Inr (Some f, s1)" by simp
        from find_replacement_Some [OF inv fr]
        have inv1: "pool_inv s1" and ub: "unbound s1 f"
          and nx: "next_page_id (disk s1) = next_page_id (disk s)"
          and miss: "map_of (page_table s1) pid = None"
          using None by simp_all
        let ?p = "(IncreasePinCount (SetPageId pid (Reset (pages s1 f))))
                    \<lparr>data := ReadPage (disk s1) pid\<rparr>"
        from valid None fr fp
        have "s' = s1\<lparr>pages := (pages s1)(f := ?p),
                      page_table := AList.update pid f (page_table s1)\<rparr>"
          by (auto simp: FetchPage_def ExtendibleHash_Find_def ExtendibleHash_Insert_def Let_def)
        then have s': "s' = s1\<lparr>disk := disk s1, pages := (pages s1)(f := ?p),
                      page_table := AList.update pid f (page_table s1)\<rparr>"
          by simp
        show ?thesis unfolding s'
          by (rule install_inv [OF inv1 ub miss]) (simp_all add: nx alloc page_ops)
      qed
    qed
  qed
qed

lemma NewPage_inv:
  assumes inv: "pool_inv s" and np: "NewPage s out = Inr (r, s')"
  shows "pool_inv s'"
proof (cases "find_replacement s")
  case (Inl e)
  with np show ?thesis by (simp add: NewPage_def allocatePage_def)
next
  case (Inr x)
  obtain fo s1 where x: "x = (fo, s1)" by (cases x)
  show ?thesis
  proof (cases fo)
    case None
    with Inr x find_replacement_None [OF inv, of s1] np inv show ?thesis
      by (simp add: NewPage_def allocatePage_def)
  next
    case (Some f)
    with Inr x have fr: "find_replacement s = Inr (Some f, s1)" by simp
    from find_replacement_Some [OF inv fr]
    have inv1: "pool_inv s1" and ub: "unbound s1 f" by simp_all
    let ?id = "next_page_id (disk s1)"
    let ?d = "(disk s1)\<lparr>next_page_id := ?id + 1\<rparr>"
    let ?p = "(IncreasePinCount (SetPageId ?id (Reset (pages s1 f))))\<lparr>data := ReadPage ?d ?id\<rparr>"
    have miss: "map_of (page_table s1) ?id = None"
    proof (cases "map_of (page_table s1) ?id")
      case (Some g)
      with inv1 have "?id < next_page_id (disk s1)" unfolding pool_inv_def by blast
      then show ?thesis by simp
    qed simp
    from fr np have s': "s' = s1\<lparr>disk := ?d, pages := (pages s1)(f := ?p),
                      page_table := AList.update ?id f (page_table s1)\<rparr>"
      by (auto simp: NewPage_def allocatePage_def AllocatePage_def ExtendibleHash_Insert_def
          Let_def)
    show ?thesis unfolding s'
      by (rule install_inv [OF inv1 ub miss]) (simp_all add: page_ops)
  qed
qed

lemma FlushPage_inv:
  assumes inv: "pool_inv s" and fp: "FlushPage s pid = Inr (r, s')"
  shows "pool_inv s'"
proof (cases "pid = INVALID_PAGE_ID")
  case True
  with fp inv show ?thesis by (simp add: FlushPage_def)
next
  case valid: False
  show ?thesis
  proof (cases "map_of (page_table s) pid")
    case None
    with valid fp show ?thesis by (simp add: FlushPage_def ExtendibleHash_Find_def)
  next
    case (Some f)
    note id = pool_inv_bound_id [OF inv Some]
    show ?thesis
    proof (cases "is_dirty (pages s f)")
      case False
      with valid Some fp inv show ?thesis
        by (auto simp: FlushPage_def ExtendibleHash_Find_def split: if_splits)
    next
      case True
      from pool_inv_dirty_set [OF inv Some True] valid Some True id fp
      have s': "s' = s\<lparr>disk := WritePage pid (data (pages s f)) (disk s),
                       pages := (pages s)(f := SetDirty False (pages s f)),
                       dirty_pages := AList.delete pid (dirty_pages s)\<rparr>"
        by (auto simp: FlushPage_def ExtendibleHash_Find_def Let_def)
      show ?thesis
        by (rule touch_inv [OF inv Some])
           (auto simp: s' WritePage_def page_ops id pool_inv_lru [OF inv] delete_conv')
    qed
  qed
qed

lemma DeletePage_inv:
  assumes inv: "pool_inv s"
  shows "pool_inv (snd (DeletePage s pid))"
proof (cases "map_of (page_table s) pid")
  case None
  with inv show ?thesis by (simp add: DeletePage_def ExtendibleHash_Find_def)
next
  case (Some f)
  show ?thesis
  proof (cases "pin_count (pages s f) = 0")
    case False
    with Some inv show ?thesis by (simp add: DeletePage_def ExtendibleHash_Find_def)
  next
    case True
    let ?s' = "snd (DeletePage s pid)"
    have I2: "\<And>q g. map_of (page_table s) q = Some g \<Longrightarrow> page_id (pages s g) = q"
      and I3: "\<And>g. is_dirty (pages s g) \<Longrightarrow>
          map_of (page_table s) (page_id (pages s g)) = Some g \<and>
          map_of (dirty_pages s) (page_id (pages s g)) = Some g"
      and I4: "\<And>g q. g \<in> set (free_list s) \<Longrightarrow> map_of (page_table s) q \<noteq> Some g"
      and I5: "\<And>g. g \<in> set (lru_values (replacer s)) \<Longrightarrow>
          map_of (page_table s) (page_id (pages s g)) = Some g"
      and I6: "\<And>q g. map_of (page_table s) q = Some g \<Longrightarrow> q < next_page_id (disk s)"
      using inv unfolding pool_inv_def by blast+
    note li = pool_inv_lru [OF inv]
    have pt: "page_table ?s' = AList.delete pid (page_table s)"
      and rp: "replacer ?s' = snd (LRUReplacer_Erase f (replacer s))"
      and dp: "dirty_pages ?s' = AList.delete pid (dirty_pages s)"
      and fl: "free_list ?s' = free_list s @ [f]"
      and nx: "next_page_id (disk ?s') = next_page_id (disk s)"
      and pg: "pages ?s' = (pages s)(f := Reset (pages s f))"
      using Some True
      by (simp_all add: DeletePage_def ExtendibleHash_Find_def ExtendibleHash_Remove_def
          DeallocatePage_def)
    have sub: "\<And>q g. map_of (page_table ?s') q = Some g \<Longrightarrow>
        q \<noteq> pid \<and> g \<noteq> f \<and> map_of (page_table s) q = Some g"
    proof -
      fix q g assume a: "map_of (page_table ?s') q = Some g"
      then have q: "q \<noteq> pid" and old: "map_of (page_table s) q = Some g"
        by (auto simp: pt delete_conv' split: if_splits)
      have "g \<noteq> f"
      proof
        assume "g = f"
        with old I2 [OF Some] I2 [of q g] q show False by simp
      qed
      with q old show "q \<noteq> pid \<and> g \<noteq> f \<and> map_of (page_table s) q = Some g" by simp
    qed
    have keep: "\<And>g. g \<noteq> f \<Longrightarrow> map_of (page_table s) (page_id (pages s g)) = Some g \<Longrightarrow>
        page_id (pages s g) \<noteq> pid \<and>
        map_of (page_table ?s') (page_id (pages s g)) = Some g"
      using Some by (auto simp: pt delete_conv')
    have vals: "lru_values (replacer ?s') = removeAll f (lru_values (replacer s))"
      by (simp add: rp lru_values_Erase [OF li])
    have fnfl: "f \<notin> set (free_list s)" using I4 Some by blast
    show ?thesis
      unfolding pool_inv_def
    proof (intro conjI allI impI ballI)
      show "lru_inv (replacer ?s')" by (simp add: rp lru_inv_Erase [OF li])
    next
      fix q g assume "map_of (page_table ?s') q = Some g"
      from sub [OF this] I2 show "page_id (pages ?s' g) = q" by (simp add: pg)
    next
      fix g assume d: "is_dirty (pages ?s' g)"
      then have gf: "g \<noteq> f" by (auto simp: pg page_ops)
      with d have "is_dirty (pages s g)" by (simp add: pg)
      with keep [OF gf] I3 gf show "map_of (page_table ?s') (page_id (pages ?s' g)) = Some g"
        by (simp add: pg)
    next
      fix g assume d: "is_dirty (pages ?s' g)"
      then have gf: "g \<noteq> f" by (auto simp: pg page_ops)
      with d have dg: "is_dirty (pages s g)" by (simp add: pg)
      with keep [OF gf] I3 gf show "map_of (dirty_pages ?s') (page_id (pages ?s' g)) = Some g"
        by (simp add: pg dp delete_conv')
    next
      show "distinct (free_list ?s')" using inv fnfl by (simp add: fl pool_inv_def)
    next
      fix g q assume "g \<in> set (free_list ?s')"
      then have "g = f \<or> g \<in> set (free_list s)" by (auto simp: fl)
      then show "map_of (page_table ?s') q \<noteq> Some g"
        using sub [of q g] I4 [of g q] by auto
    next
      fix g assume "g \<in> set (lru_values (replacer ?s'))"
      then have gf: "g \<noteq> f" and "g \<in> set (lru_values (replacer s))" by (simp_all add: vals)
      with keep [OF gf] I5 show "map_of (page_table ?s') (page_id (pages ?s' g)) = Some g"
        by (simp add: pg)
    next
      fix q g assume "map_of (page_table ?s') q = Some g"
      from sub [OF this] I6 show "q < next_page_id (disk ?s')" by (simp add: nx)
    qed
  qed
qed

text \<open>What the loop of \<^verbatim>\<open>FlushAllPages\<close> does, for any list of entries.\<close>

lemma fold_flush_entry_frame:
  "page_table (fold flush_entry es s) = page_table s \<and>
   replacer (fold flush_entry es s) = replacer s \<and>
   free_list (fold flush_entry es s) = free_list s \<and>
   dirty_pages (fold flush_entry es s) = dirty_pages s \<and>
   pool_size (fold flush_entry es s) = pool_size s \<and>
   next_page_id (disk (fold flush_entry es s)) = next_page_id (disk s) \<and>
   deallocated (disk (fold flush_entry es s)) = deallocated (disk s)"
  by (induction es arbitrary: s) (simp_all add: flush_entry_def WritePage_def)

lemma fold_flush_entry_page:
  "page_id (pages (fold flush_entry es s) g) = page_id (pages s g) \<and>
   pin_count (pages (fold flush_entry es s) g) = pin_count (pages s g) \<and>
   data (pages (fold flush_entry es s) g) = data (pages s g) \<and>
   is_dirty (pages (fold flush_entry es s) g) = (is_dirty (pages s g) \<and> g \<notin> snd ` set es)"
proof (induction es arbitrary: s)
  case Nil
  show ?case by simp
next
  case (Cons e es)
  have one: "page_id (pages (flush_entry e s) g) = page_id (pages s g) \<and>
      pin_count (pages (flush_entry e s) g) = pin_count (pages s g) \<and>
      data (pages (flush_entry e s) g) = data (pages s g) \<and>
      is_dirty (pages (flush_entry e s) g) = (is_dirty (pages s g) \<and> g \<noteq> snd e)"
    by (simp add: flush_entry_def page_ops)
  have "fold flush_entry (e # es) s = fold flush_entry es (flush_entry e s)" by simp
  with Cons.IH [of "flush_entry e s"] one show ?case by auto
qed

lemma fold_flush_entry_written:
  "\<exists>ws. written (disk (fold flush_entry es s)) = ws @ written (disk s) \<and>
        (\<forall>w \<in> set ws. \<exists>f. (fst w, f) \<in> set es \<and> is_dirty (pages s f) \<and>
                          snd w = data (pages s f))"
proof (induction es arbitrary: s)
  case Nil
  show ?case by simp
next
  case (Cons e es)
  let ?s1 = "flush_entry e s"
  from Cons.IH [of ?s1] obtain ws where
    ws: "written (disk (fold flush_entry es ?s1)) = ws @ written (disk ?s1)"
    and each: "\<forall>w \<in> set ws. \<exists>f. (fst w, f) \<in> set es \<and> is_dirty (pages ?s1 f) \<and>
                          snd w = data (pages ?s1 f)"
    by blast
  have earlier: "\<And>f. is_dirty (pages ?s1 f) \<Longrightarrow>
      is_dirty (pages s f) \<and> data (pages ?s1 f) = data (pages s f)"
    by (auto simp: flush_entry_def page_ops split: if_splits)
  from each earlier have each': "\<forall>w \<in> set ws. \<exists>f. (fst w, f) \<in> set (e # es) \<and>
      is_dirty (pages s f) \<and> snd w = data (pages s f)"
    by (metis list.set_intros(2))
  show ?case
  proof (cases "is_dirty (pages s (snd e))")
    case False
    then have "written (disk ?s1) = written (disk s)" by (simp add: flush_entry_def)
    with ws each' show ?thesis by auto
  next
    case True
    then have w1: "written (disk ?s1) = (fst e, data (pages s (snd e))) # written (disk s)"
      by (simp add: flush_entry_def WritePage_def)
    have "(fst e, snd e) \<in> set (e # es)" by simp
    with True each' have "\<forall>w \<in> set (ws @ [(fst e, data (pages s (snd e)))]).
        \<exists>f. (fst w, f) \<in> set (e # es) \<and> is_dirty (pages s f) \<and> snd w = data (pages s f)"
      by (metis (no_types, lifting) fst_conv snd_conv rotate1.simps(2) set_ConsD set_rotate1)
    moreover have "written (disk (fold flush_entry (e # es) s)) =
        (ws @ [(fst e, data (pages s (snd e)))]) @ written (disk s)"
      using ws w1 by simp
    ultimately show ?thesis by blast
  qed
qed

lemma FlushAllPages_clean:
  assumes "pool_inv s"
  shows "\<not> is_dirty (pages (FlushAllPages s) g)"
proof
  assume "is_dirty (pages (FlushAllPages s) g)"
  then have d: "is_dirty (pages s g)" and n: "g \<notin> snd ` set (dirty_pages s)"
    by (simp_all add: FlushAllPages_def fold_flush_entry_page)
  from d assms have "map_of (dirty_pages s) (page_id (pages s g)) = Some g"
    unfolding pool_inv_def by blast
  then have "(page_id (pages s g), g) \<in> set (dirty_pages s)" by (rule map_of_SomeD)
  with n show False by force
qed

lemma FlushAllPages_inv:
  assumes inv: "pool_inv s"
  shows "pool_inv (FlushAllPages s)"
proof -
  have fr: "page_table (FlushAllPages s) = page_table s"
    "replacer (FlushAllPages s) = replacer s" "free_list (FlushAllPages s) = free_list s"
    "next_page_id (disk (FlushAllPages s)) = next_page_id (disk s)"
    "\<And>g. page_id (pages (FlushAllPages s) g) = page_id (pages s g)"
    by (simp_all add: FlushAllPages_def fold_flush_entry_frame fold_flush_entry_page)
  show ?thesis
    using inv FlushAllPages_clean [OF inv]
    unfolding pool_inv_def fr by simp
qed

lemma step_inv:
  assumes "pool_inv s" and "valid_call s c" and "step s c = Inr s'"
  shows "pool_inv s'"
proof (cases c)
  case (CallFetchPage pid)
  with assms FetchPage_inv [OF assms(1), of pid] show ?thesis
    by (auto split: sum.splits)
next
  case CallNewPage
  with assms NewPage_inv [OF assms(1)] show ?thesis
    by (auto split: sum.splits)
next
  case (CallUnpinPage pid dirty)
  with assms UnpinPage_inv [OF assms(1), of pid dirty] show ?thesis by auto
next
  case (CallFlushPage pid)
  with assms FlushPage_inv [OF assms(1), of pid] show ?thesis
    by (auto split: sum.splits)
next
  case CallFlushAllPages
  with assms FlushAllPages_inv [OF assms(1)] show ?thesis by auto
next
  case (CallDeletePage pid)
  with assms DeletePage_inv [OF assms(1), of pid] show ?thesis by auto
next
  case (CallWrite f b)
  with assms pool_inv_pages [OF assms(1), of "(pages s)(f := (pages s f)\<lparr>data := b\<rparr>)"]
  show ?thesis by auto
qed

lemma reachable_inv: "reachable s \<Longrightarrow> pool_inv s"
  by (induction rule: reachable.induct) (auto intro: pool_inv_init step_inv)

lemma reachable_run:
  "reachable s \<Longrightarrow> valid_run s cs \<Longrightarrow> run s cs = Inr s' \<Longrightarrow> reachable s'"
proof (induction cs arbitrary: s)
  case Nil
  then show ?case by simp
next
  case (Cons c cs)
  then show ?case
    by (cases "step s c") (auto intro: reachable_step)
qed

text \<open>
  The dirty set of a reachable pool is in ascending order of its keys, so that the fold
  of \<open>FlushAllPages\<close> visits the entries as the iteration over a \<^verbatim>\<open>std::map\<close> does.
\<close>

lemma find_replacement_dirty_pages:
  "find_replacement s = Inr (fo, s1) \<Longrightarrow> dirty_pages s1 = dirty_pages s"
  by (auto simp: find_replacement_def releaseDirty_def Let_def
      split: list.splits sum.splits option.splits if_splits)

lemma FetchPage_dirty_pages:
  assumes "FetchPage s pid = Inr (r, s')"
  shows "dirty_pages s' = dirty_pages s"
proof (cases "find_replacement s")
  case (Inl e)
  with assms show ?thesis
    by (auto simp: FetchPage_def split: option.splits if_splits)
next
  case (Inr x)
  obtain fo s1 where x: "x = (fo, s1)" by (cases x)
  with Inr have "dirty_pages s1 = dirty_pages s" by (simp add: find_replacement_dirty_pages)
  with Inr x assms show ?thesis
    by (auto simp: FetchPage_def Let_def split: option.splits if_splits)
qed

lemma NewPage_dirty_pages:
  assumes "NewPage s out = Inr (r, s')"
  shows "dirty_pages s' = dirty_pages s"
proof (cases "find_replacement s")
  case (Inl e)
  with assms show ?thesis by (simp add: NewPage_def allocatePage_def)
next
  case (Inr x)
  obtain fo s1 where x: "x = (fo, s1)" by (cases x)
  with Inr have "dirty_pages s1 = dirty_pages s" by (simp add: find_replacement_dirty_pages)
  with Inr x assms show ?thesis
    by (auto simp: NewPage_def allocatePage_def AllocatePage_def Let_def split: option.splits)
qed

lemma step_dirty_pages_sorted:
  assumes "sorted_wrt (<) (map fst (dirty_pages s))" and "step s c = Inr s'"
  shows "sorted_wrt (<) (map fst (dirty_pages s'))"
proof (cases c)
  case (CallFetchPage pid)
  with assms show ?thesis
    by (auto simp: FetchPage_dirty_pages split: sum.splits)
next
  case CallNewPage
  with assms show ?thesis
    by (auto simp: NewPage_dirty_pages split: sum.splits)
next
  case (CallUnpinPage pid dirty)
  with assms show ?thesis
    by (auto simp: UnpinPage_def Let_def sorted_std_map_assign split: option.splits)
next
  case (CallFlushPage pid)
  with assms show ?thesis
    by (auto simp: FlushPage_def Let_def sorted_delete
        split: sum.splits option.splits if_splits)
next
  case CallFlushAllPages
  with assms show ?thesis by (auto simp: FlushAllPages_def)
next
  case (CallDeletePage pid)
  with assms show ?thesis
    by (auto simp: DeletePage_def sorted_delete split: option.splits)
next
  case (CallWrite f b)
  with assms show ?thesis by auto
qed

lemma reachable_dirty_pages_sorted:
  "reachable s \<Longrightarrow> sorted_wrt (<) (map fst (dirty_pages s))"
  by (induction rule: reachable.induct)
     (auto simp: BufferPoolManager_def intro: step_dirty_pages_sorted)

section \<open>Evaluation of the operations on concrete pools\<close>

lemmas eval_defs =
  BufferPoolManager_def DiskManager_new_def Page_new_def LRUReplacer_new_def
  NewPage_def allocatePage_def find_replacement_def releaseDirty_def FetchPage_def
  UnpinPage_def FlushPage_def FlushAllPages_def flush_entry_def DeletePage_def
  AllocatePage_def DeallocatePage_def ReadPage_def WritePage_def
  ExtendibleHash_Find_def ExtendibleHash_Insert_def ExtendibleHash_Remove_def
  LRUReplacer_Insert_def LRUReplacer_Victim_def LRUReplacer_Erase_def LRUReplacer_Size_def
  list_erase_def new_node_def lru_values_def INVALID_PAGE_ID_def page_ops

section \<open>The contract of the LRU replacer\<close>

text \<open>
  Claim C9. In every replacer built from the constructor by \<^verbatim>\<open>Insert\<close>, \<^verbatim>\<open>Victim\<close> and
  \<^verbatim>\<open>Erase\<close>: no value occurs twice; \<^verbatim>\<open>Insert(v)\<close> removes the occurrence of \<open>v\<close>, if
  there is one, and puts \<open>v\<close> at the front; \<^verbatim>\<open>Victim\<close> returns false, changing nothing,
  exactly when the replacer holds no value, and otherwise it removes and hands back the
  value at the back of the sequence, the one inserted least recently; \<^verbatim>\<open>Size\<close> is the
  number of values held.
\<close>

theorem lru_contract:
  assumes "lru_reachable r"
  shows "distinct (lru_values r) \<and>
         LRUReplacer_Size r = length (lru_values r) \<and>
         lru_values (LRUReplacer_Insert v r) = v # removeAll v (lru_values r) \<and>
         (LRUReplacer_Victim r = Inr (None, r) \<longleftrightarrow> lru_values r = []) \<and>
         (lru_values r \<noteq> [] \<longrightarrow>
            (\<exists>r'. LRUReplacer_Victim r = Inr (Some (last (lru_values r)), r') \<and>
                  lru_values r' = butlast (lru_values r)))"
proof -
  note inv = lru_reachable_inv [OF assms]
  have "lru_values r \<noteq> [] \<Longrightarrow>
      (\<exists>r'. LRUReplacer_Victim r = Inr (Some (last (lru_values r)), r') \<and>
            lru_values r' = butlast (lru_values r))"
    using lru_Victim_value [OF inv] by (simp add: lru_values_def map_butlast)
  then show ?thesis
    using lru_inv_distinct [OF inv] lru_values_Insert [OF inv] lru_Victim_empty [OF inv]
      lru_Size [OF inv]
    by blast
qed

theorem lru_contract_witness:
  "lru_reachable (LRUReplacer_Insert 1 (LRUReplacer_Insert 2 (LRUReplacer_Insert (1::nat) LRUReplacer_new))) \<and>
   lru_values (LRUReplacer_Insert 1 (LRUReplacer_Insert 2 (LRUReplacer_Insert (1::nat) LRUReplacer_new))) = [1, 2] \<and>
   (case LRUReplacer_Victim (LRUReplacer_Insert 1 (LRUReplacer_Insert 2 (LRUReplacer_Insert (1::nat) LRUReplacer_new))) of
      Inl e \<Rightarrow> False | Inr (x, r') \<Rightarrow> x = Some 2 \<and> lru_values r' = [1])"
proof -
  let ?r = "LRUReplacer_Insert 1 (LRUReplacer_Insert 2 (LRUReplacer_Insert (1::nat) LRUReplacer_new))"
  have r: "lru_reachable ?r" by (intro lru_reachable.intros)
  have v: "lru_values ?r = [1, 2]" by (simp add: eval_defs)
  from lru_contract [OF r, of 0] v r show ?thesis by auto
qed

section \<open>Exhaustion\<close>

text \<open>
  Claim C5. When the free list is empty and the replacer reports size 0 (every frame is
  pinned), \<^verbatim>\<open>FetchPage\<close> of a page that is not in the page table returns the null pointer,
  and so does \<^verbatim>\<open>NewPage\<close>, which leaves the caller's \<^verbatim>\<open>page_id\<close> alone; the pool after the
  call is the pool before it, so no frame, pinned or not, was evicted.
\<close>

theorem exhausted_pool_returns_null:
  assumes "free_list s = []" and "LRUReplacer_Size (replacer s) = 0"
  shows "(ExtendibleHash_Find (page_table s) pid = None \<longrightarrow> FetchPage s pid = Inr (None, s)) \<and>
         NewPage s out = Inr ((None, out), s)"
proof -
  from assms have "find_replacement s = Inr (None, s)"
    by (simp add: find_replacement_def LRUReplacer_Victim_def LRUReplacer_Size_def)
  then show ?thesis
    by (simp add: FetchPage_def NewPage_def allocatePage_def)
qed

theorem exhausted_pool_returns_null_witness:
  "\<exists>s. run (BufferPoolManager 1 DiskManager_new) [CallNewPage] = Inr s \<and>
       free_list s = [] \<and> LRUReplacer_Size (replacer s) = 0 \<and> 0 < pin_count (pages s 0) \<and>
       ExtendibleHash_Find (page_table s) 5 = None \<and>
       FetchPage s 5 = Inr (None, s) \<and> NewPage s 7 = Inr ((None, 7), s)"
proof -
  obtain s where s: "run (BufferPoolManager 1 DiskManager_new) [CallNewPage] = Inr s"
    and h: "free_list s = []" "LRUReplacer_Size (replacer s) = 0"
    and m: "ExtendibleHash_Find (page_table s) 5 = None" "0 < pin_count (pages s 0)"
    by (simp add: eval_defs)
  from exhausted_pool_returns_null [OF h, of 5 7] m s h show ?thesis by blast
qed

section \<open>A hit in the page table\<close>

text \<open>
  Claim C10. A \<^verbatim>\<open>FetchPage\<close> of a valid identifier that the page table maps to a frame
  returns that frame, and the pool afterwards is the pool before with the pin count of
  that frame raised by one: buffer, identifier and dirty flag of the frame, every other
  frame, page table, free list, dirty set, replacer and disk are as they were.
\<close>

theorem FetchPage_hit_only_pins:
  assumes "pid \<noteq> INVALID_PAGE_ID" and "ExtendibleHash_Find (page_table s) pid = Some f"
  shows "FetchPage s pid =
           Inr (Some f, s\<lparr>pages := (pages s)(f := (pages s f)\<lparr>pin_count := pin_count (pages s f) + 1\<rparr>)\<rparr>)"
  using assms by (simp add: FetchPage_def IncreasePinCount_def)

theorem FetchPage_hit_only_pins_witness:
  "\<exists>s. run (BufferPoolManager 1 DiskManager_new) [CallNewPage, CallUnpinPage 0 True] = Inr s \<and>
       (0::int) \<noteq> INVALID_PAGE_ID \<and> ExtendibleHash_Find (page_table s) 0 = Some 0 \<and>
       FetchPage s 0 =
         Inr (Some 0, s\<lparr>pages := (pages s)(0 := (pages s 0)\<lparr>pin_count := pin_count (pages s 0) + 1\<rparr>)\<rparr>)"
proof -
  obtain s where s: "run (BufferPoolManager 1 DiskManager_new) [CallNewPage, CallUnpinPage 0 True] = Inr s"
    and h: "ExtendibleHash_Find (page_table s) 0 = Some 0"
    by (simp add: eval_defs)
  have v: "(0::int) \<noteq> INVALID_PAGE_ID" by (simp add: INVALID_PAGE_ID_def)
  from FetchPage_hit_only_pins [OF v h] s h v show ?thesis by blast
qed

section \<open>Unpinning\<close>

text \<open>
  Claim C6. \<^verbatim>\<open>UnpinPage(page_id, is_dirty)\<close> returns true exactly when the page table maps
  \<open>page_id\<close> to a frame whose pin count is positive. Then the pin count of that frame
  goes down by one; if it reaches 0 the frame is inserted into the replacer and, with
  \<open>is_dirty\<close>, the frame's dirty flag is set and the dirty set maps the identifier to the
  frame; without \<open>is_dirty\<close> the dirty flag and the dirty set stay as they were. When the
  call returns false the pool is unchanged.
\<close>

theorem UnpinPage_contract:
  "(fst (UnpinPage s pid dirty) \<longleftrightarrow>
      (\<exists>f. ExtendibleHash_Find (page_table s) pid = Some f \<and> 0 < pin_count (pages s f))) \<and>
   (\<not> fst (UnpinPage s pid dirty) \<longrightarrow> snd (UnpinPage s pid dirty) = s) \<and>
   (\<forall>f. ExtendibleHash_Find (page_table s) pid = Some f \<and> 0 < pin_count (pages s f) \<longrightarrow>
      pin_count (pages (snd (UnpinPage s pid dirty)) f) = pin_count (pages s f) - 1 \<and>
      (pin_count (pages (snd (UnpinPage s pid dirty)) f) = 0 \<longrightarrow>
         replacer (snd (UnpinPage s pid dirty)) = LRUReplacer_Insert f (replacer s) \<and>
         (dirty \<longrightarrow> is_dirty (pages (snd (UnpinPage s pid dirty)) f) \<and>
                    map_of (dirty_pages (snd (UnpinPage s pid dirty))) pid = Some f)) \<and>
      (\<not> dirty \<longrightarrow>
         is_dirty (pages (snd (UnpinPage s pid dirty)) f) = is_dirty (pages s f) \<and>
         dirty_pages (snd (UnpinPage s pid dirty)) = dirty_pages s))"
  by (cases "ExtendibleHash_Find (page_table s) pid")
     (auto simp: UnpinPage_def Let_def page_ops map_of_std_map_assign)

theorem UnpinPage_contract_witness:
  "\<exists>s. run (BufferPoolManager 1 DiskManager_new) [CallNewPage] = Inr s \<and>
       ExtendibleHash_Find (page_table s) 0 = Some 0 \<and> pin_count (pages s 0) = 1 \<and>
       fst (UnpinPage s 0 True) \<and>
       pin_count (pages (snd (UnpinPage s 0 True)) 0) = 0 \<and>
       is_dirty (pages (snd (UnpinPage s 0 True)) 0) \<and>
       map_of (dirty_pages (snd (UnpinPage s 0 True))) 0 = Some 0 \<and>
       replacer (snd (UnpinPage s 0 True)) = LRUReplacer_Insert 0 (replacer s) \<and>
       \<not> fst (UnpinPage (snd (UnpinPage s 0 True)) 0 True)"
proof -
  obtain s where s: "run (BufferPoolManager 1 DiskManager_new) [CallNewPage] = Inr s"
    and h: "ExtendibleHash_Find (page_table s) 0 = Some 0" "pin_count (pages s 0) = 1"
    by (simp add: eval_defs)
  let ?s' = "snd (UnpinPage s 0 True)"
  from UnpinPage_contract [of s 0 True] h
  have a: "fst (UnpinPage s 0 True)" "pin_count (pages ?s' 0) = 0" "is_dirty (pages ?s' 0)"
    "map_of (dirty_pages ?s') 0 = Some 0" "replacer ?s' = LRUReplacer_Insert 0 (replacer s)"
    by auto
  have "page_table ?s' = page_table s"
    by (simp add: UnpinPage_def Let_def split: option.splits)
  with UnpinPage_contract [of ?s' 0 True] h a(2)
  have "\<not> fst (UnpinPage ?s' 0 True)" by auto
  with a s h show ?thesis by blast
qed

section \<open>Flushing every page\<close>

text \<open>
  Claim C7, as amended. In every pool that clients reach from the constructor by the
  public operations and by writes into pinned frames, where \<^verbatim>\<open>FetchPage\<close> is only called
  with identifiers that the disk manager has handed out before the call, after
  \<^verbatim>\<open>FlushAllPages\<close> the dirty set is empty and no frame has its dirty flag set, and every
  write the call sends to the disk manager carries the buffer of a frame that was dirty
  when the call began and that an entry of the dirty set pointed to. The proof rests on
  the invariant \<open>pool_inv\<close>, by which a dirty frame is in the dirty set.
\<close>

theorem FlushAllPages_cleans_pool:
  assumes "reachable s"
  shows "dirty_pages (FlushAllPages s) = [] \<and>
         (\<forall>f. \<not> is_dirty (pages (FlushAllPages s) f)) \<and>
         (\<exists>ws. written (disk (FlushAllPages s)) = ws @ written (disk s) \<and>
               (\<forall>w \<in> set ws. \<exists>f. (fst w, f) \<in> set (dirty_pages s) \<and> is_dirty (pages s f) \<and>
                                 snd w = data (pages s f)))"
proof -
  note inv = reachable_inv [OF assms]
  have "dirty_pages (FlushAllPages s) = []" by (simp add: FlushAllPages_def)
  moreover have "\<forall>f. \<not> is_dirty (pages (FlushAllPages s) f)"
    using FlushAllPages_clean [OF inv] by blast
  moreover have "disk (FlushAllPages s) = disk (fold flush_entry (dirty_pages s) s)"
    by (simp add: FlushAllPages_def)
  ultimately show ?thesis
    using fold_flush_entry_written [of "dirty_pages s" s] by simp
qed

theorem FlushAllPages_cleans_pool_witness:
  "\<exists>s. run (BufferPoolManager 1 DiskManager_new) [CallNewPage, CallUnpinPage 0 True] = Inr s \<and>
       reachable s \<and> is_dirty (pages s 0) \<and> dirty_pages s = [(0, 0)] \<and>
       dirty_pages (FlushAllPages s) = [] \<and> \<not> is_dirty (pages (FlushAllPages s) 0)"
proof -
  have v: "valid_run (BufferPoolManager 1 DiskManager_new) [CallNewPage, CallUnpinPage 0 True]"
    by (simp add: eval_defs)
  obtain s where s: "run (BufferPoolManager 1 DiskManager_new) [CallNewPage, CallUnpinPage 0 True] = Inr s"
    and d: "is_dirty (pages s 0)" "dirty_pages s = [(0, 0)]"
    by (simp add: eval_defs)
  have r: "reachable s" by (rule reachable_run [OF reachable_init v s])
  from FlushAllPages_cleans_pool [OF r] s r d show ?thesis by blast
qed

text \<open>
  Claim C7, as stated for every pool reachable by the public operations, fails.
  \<^verbatim>\<open>FetchPage\<close> does not check that the page exists. In a pool of two frames on a new
  database file, page 0 is fetched before the disk manager has allocated it, and unpinned
  dirty in frame 0; \<^verbatim>\<open>NewPage\<close> then allocates identifier 0 again, for frame 1, and
  overwrites the page table entry; unpinning that page dirty overwrites the entry of the
  dirty set, which now points to frame 1 only. \<^verbatim>\<open>FlushAllPages\<close> cleans frame 1, and
  frame 0 keeps its dirty flag.
\<close>

theorem FlushAllPages_leaves_dirty_frame_after_unallocated_fetch:
  "\<not> isl (run (BufferPoolManager 2 DiskManager_new)
            [CallFetchPage 0, CallUnpinPage 0 True, CallNewPage, CallUnpinPage 0 True]) \<and>
   0 < pool_size (FlushAllPages (projr (run (BufferPoolManager 2 DiskManager_new)
            [CallFetchPage 0, CallUnpinPage 0 True, CallNewPage, CallUnpinPage 0 True]))) \<and>
   is_dirty (pages (projr (run (BufferPoolManager 2 DiskManager_new)
            [CallFetchPage 0, CallUnpinPage 0 True, CallNewPage, CallUnpinPage 0 True])) 0) \<and>
   dirty_pages (projr (run (BufferPoolManager 2 DiskManager_new)
            [CallFetchPage 0, CallUnpinPage 0 True, CallNewPage, CallUnpinPage 0 True])) = [(0, 1)] \<and>
   is_dirty (pages (FlushAllPages (projr (run (BufferPoolManager 2 DiskManager_new)
            [CallFetchPage 0, CallUnpinPage 0 True, CallNewPage, CallUnpinPage 0 True]))) 0)"
  by (simp add: eval_defs upt_conv_Cons)

text \<open>The run above is not one of the amended claim: its first call is not valid.\<close>

lemma unallocated_fetch_not_valid:
  "\<not> valid_run (BufferPoolManager 2 DiskManager_new)
       [CallFetchPage 0, CallUnpinPage 0 True, CallNewPage, CallUnpinPage 0 True]"
  by (simp add: eval_defs)

section \<open>Deleting a page\<close>

lemma DeletePage_always_false: "fst (DeletePage s pid) = False"
  by (simp add: DeletePage_def split: option.splits)

text \<open>
  Claim C8. When the page table maps the identifier to a frame with pin count 0,
  \<^verbatim>\<open>DeletePage\<close> removes the identifier from the page table, erases the frame from the
  replacer, erases the identifier from the dirty set and writes nothing to disk, has the
  disk manager deallocate the page, resets the frame and appends it to the free list.
  Afterwards a lookup of the identifier fails, a well-formed replacer no longer holds
  the frame, and the free list is longer by the one frame the page occupied.
\<close>

theorem DeletePage_frees_frame:
  assumes "ExtendibleHash_Find (page_table s) pid = Some f" and "pin_count (pages s f) = 0"
  shows "page_table (snd (DeletePage s pid)) = ExtendibleHash_Remove pid (page_table s) \<and>
         ExtendibleHash_Find (page_table (snd (DeletePage s pid))) pid = None \<and>
         replacer (snd (DeletePage s pid)) = snd (LRUReplacer_Erase f (replacer s)) \<and>
         (lru_inv (replacer s) \<longrightarrow> f \<notin> set (lru_values (replacer (snd (DeletePage s pid))))) \<and>
         dirty_pages (snd (DeletePage s pid)) = AList.delete pid (dirty_pages s) \<and>
         map_of (dirty_pages (snd (DeletePage s pid))) pid = None \<and>
         written (disk (snd (DeletePage s pid))) = written (disk s) \<and>
         deallocated (disk (snd (DeletePage s pid))) = pid # deallocated (disk s) \<and>
         pages (snd (DeletePage s pid)) = (pages s)(f := Reset (pages s f)) \<and>
         free_list (snd (DeletePage s pid)) = free_list s @ [f] \<and>
         length (free_list (snd (DeletePage s pid))) = Suc (length (free_list s))"
proof -
  have "lru_inv (replacer s) \<Longrightarrow> f \<notin> set (lru_values (snd (LRUReplacer_Erase f (replacer s))))"
    by (simp add: lru_values_Erase)
  with assms show ?thesis
    by (simp add: DeletePage_def ExtendibleHash_Find_def ExtendibleHash_Remove_def
        DeallocatePage_def delete_conv')
qed

theorem DeletePage_frees_frame_witness:
  "\<exists>s. run (BufferPoolManager 1 DiskManager_new) [CallNewPage, CallUnpinPage 0 True] = Inr s \<and>
       ExtendibleHash_Find (page_table s) 0 = Some 0 \<and> pin_count (pages s 0) = 0 \<and>
       lru_inv (replacer s) \<and> free_list s = [] \<and> lru_values (replacer s) = [0] \<and>
       ExtendibleHash_Find (page_table (snd (DeletePage s 0))) 0 = None \<and>
       0 \<notin> set (lru_values (replacer (snd (DeletePage s 0)))) \<and>
       free_list (snd (DeletePage s 0)) = [0] \<and>
       written (disk (snd (DeletePage s 0))) = [] \<and>
       deallocated (disk (snd (DeletePage s 0))) = [0]"
proof -
  have v: "valid_run (BufferPoolManager 1 DiskManager_new) [CallNewPage, CallUnpinPage 0 True]"
    by (simp add: eval_defs)
  obtain s where s: "run (BufferPoolManager 1 DiskManager_new) [CallNewPage, CallUnpinPage 0 True] = Inr s"
    and h: "ExtendibleHash_Find (page_table s) 0 = Some 0" "pin_count (pages s 0) = 0"
    and e: "free_list s = []" "lru_values (replacer s) = [0]" "written (disk s) = []"
      "deallocated (disk s) = []"
    by (simp add: eval_defs)
  have li: "lru_inv (replacer s)"
    by (rule pool_inv_lru [OF reachable_inv [OF reachable_run [OF reachable_init v s]]])
  from DeletePage_frees_frame [OF h] s h e li show ?thesis by auto
qed

text \<open>
  The round trip of the spec's scenario 5, from any pool with a free frame: a new page,
  unpinned and then deleted, gives the frame back, and the free list is as long as before.
\<close>

lemma NewPage_UnpinPage_DeletePage_roundtrip:
  assumes "free_list s = f # fs"
  shows "\<exists>s1 s2 id. NewPage s out = Inr ((Some f, id), s1) \<and>
           UnpinPage s1 id False = (True, s2) \<and>
           free_list (snd (DeletePage s2 id)) = fs @ [f] \<and>
           length (free_list (snd (DeletePage s2 id))) = length (free_list s) \<and>
           ExtendibleHash_Find (page_table (snd (DeletePage s2 id))) id = None"
  using assms
  by (simp add: NewPage_def allocatePage_def find_replacement_def AllocatePage_def Let_def
      UnpinPage_def DeletePage_def ExtendibleHash_Find_def ExtendibleHash_Insert_def
      ExtendibleHash_Remove_def update_conv' delete_conv' page_ops)

section \<open>Where the code departs from its contract\<close>

text \<open>
  Claim C1. \<^verbatim>\<open>FetchPage\<close> does not erase a frame from the replacer when it hits the page
  table. In a pool of one frame, a new page 0 is unpinned and fetched again: frame 0 is
  pinned once and still in the replacer. The next \<^verbatim>\<open>NewPage\<close> takes it as the victim and
  hands the frame out for page 1 while the first caller holds its pin.
\<close>

theorem FetchPage_hit_leaves_pinned_frame_in_replacer:
  "valid_run (BufferPoolManager 1 DiskManager_new)
     [CallNewPage, CallUnpinPage 0 False, CallFetchPage 0] \<and>
   (case run (BufferPoolManager 1 DiskManager_new)
           [CallNewPage, CallUnpinPage 0 False, CallFetchPage 0] of
      Inl e \<Rightarrow> False
    | Inr s \<Rightarrow>
        page_id (pages s 0) = 0 \<and> pin_count (pages s 0) = 1 \<and>
        0 \<in> set (lru_values (replacer s)) \<and>
        (case NewPage s INVALID_PAGE_ID of
           Inl e \<Rightarrow> False
         | Inr (r, s') \<Rightarrow> r = (Some 0, 1) \<and> page_id (pages s' 0) = 1))"
  by (simp add: eval_defs)

text \<open>
  Claim C2. \<^verbatim>\<open>releaseDirty\<close> writes a dirty victim back, clears its dirty flag and removes
  its identifier from the page table, but leaves the entry of the dirty set. In a pool of
  one frame, page 0 is unpinned dirty and evicted by the next \<^verbatim>\<open>NewPage\<close>: page 0 was
  written and is gone from the page table, frame 0 is clean and holds page 1, and the
  dirty set still maps identifier 0 to frame 0.
\<close>

theorem releaseDirty_leaves_dirty_set_entry:
  "valid_run (BufferPoolManager 1 DiskManager_new)
     [CallNewPage, CallUnpinPage 0 True, CallNewPage] \<and>
   (case run (BufferPoolManager 1 DiskManager_new)
           [CallNewPage, CallUnpinPage 0 True, CallNewPage] of
      Inl e \<Rightarrow> False
    | Inr s \<Rightarrow>
        map fst (written (disk s)) = [0] \<and> \<not> is_dirty (pages s 0) \<and>
        page_id (pages s 0) = 1 \<and> page_table s = [(1, 0)] \<and>
        map_of (dirty_pages s) 0 = Some 0)"
  by (simp add: eval_defs)

text \<open>
  What the entry left behind does: the frame, now holding page 1, is modified and
  unpinned dirty, and \<^verbatim>\<open>FlushAllPages\<close> meets the entry of identifier 0, the smaller key,
  first. It writes the buffer of page 1 under identifier 0 and
  clears the flag, so that page 1 is never written.
\<close>

lemma stale_dirty_entry_misdirects_flush:
  "valid_run (BufferPoolManager 1 DiskManager_new)
     [CallNewPage, CallUnpinPage 0 True, CallNewPage,
      CallWrite 0 (replicate PAGE_SIZE (CHR ''B'')), CallUnpinPage 1 True, CallFlushAllPages] \<and>
   (case run (BufferPoolManager 1 DiskManager_new)
           [CallNewPage, CallUnpinPage 0 True, CallNewPage,
            CallWrite 0 (replicate PAGE_SIZE (CHR ''B'')), CallUnpinPage 1 True,
            CallFlushAllPages] of
      Inl e \<Rightarrow> False
    | Inr s \<Rightarrow>
        page_id (pages s 0) = 1 \<and> \<not> is_dirty (pages s 0) \<and>
        ReadPage (disk s) 0 = replicate PAGE_SIZE (CHR ''B'') \<and>
        map_of (written (disk s)) 1 = None)"
  by (simp add: eval_defs)

text \<open>
  Claim C3. \<^verbatim>\<open>DeletePage\<close> returns false on every path. In a pool of one frame, page 0 is
  in the page table with pin count 0; \<^verbatim>\<open>DeletePage(0)\<close> removes it from the page table and
  puts the frame back into the free list, and returns false.
\<close>

theorem DeletePage_returns_false_on_success:
  "case run (BufferPoolManager 1 DiskManager_new) [CallNewPage, CallUnpinPage 0 False] of
     Inl e \<Rightarrow> False
   | Inr s \<Rightarrow>
       ExtendibleHash_Find (page_table s) 0 = Some 0 \<and> pin_count (pages s 0) = 0 \<and>
       fst (DeletePage s 0) = False \<and>
       ExtendibleHash_Find (page_table (snd (DeletePage s 0))) 0 = None \<and>
       free_list (snd (DeletePage s 0)) = [0]"
  by (simp add: eval_defs)

text \<open>
  Claim C4. \<^verbatim>\<open>FlushPage\<close> evaluates \<^verbatim>\<open>page->GetPageId()\<close> before it tests \<^verbatim>\<open>found\<close>. On a pool
  that has just been constructed page 0 is absent, \<^verbatim>\<open>page\<close> is null, and the call
  dereferences the null pointer instead of returning false.
\<close>

theorem FlushPage_absent_dereferences_null:
  "ExtendibleHash_Find (page_table (BufferPoolManager 1 DiskManager_new)) 0 = None \<and>
   FlushPage (BufferPoolManager 1 DiskManager_new) 0 = Inl NullDereference"
  by (simp add: eval_defs)

text \<open>
  The other cases of \<^verbatim>\<open>FlushPage\<close> are as the contract has them: false for the invalid
  identifier; for a page the page table holds, in a pool that satisfies the invariant,
  true with the write, the cleared flag and the erased dirty set entry when the frame is
  dirty, and false with nothing changed when it is clean.
\<close>

lemma FlushPage_invalid: "FlushPage s INVALID_PAGE_ID = Inr (False, s)"
  by (simp add: FlushPage_def)

lemma FlushPage_absent:
  "pid \<noteq> INVALID_PAGE_ID \<Longrightarrow> ExtendibleHash_Find (page_table s) pid = None \<Longrightarrow>
   FlushPage s pid = Inl NullDereference"
  by (simp add: FlushPage_def)

lemma FlushPage_present:
  assumes inv: "pool_inv s" and valid: "pid \<noteq> INVALID_PAGE_ID"
    and found: "ExtendibleHash_Find (page_table s) pid = Some f"
  shows "FlushPage s pid =
           (if is_dirty (pages s f)
            then Inr (True, s\<lparr>disk := WritePage pid (data (pages s f)) (disk s),
                              pages := (pages s)(f := (pages s f)\<lparr>is_dirty := False\<rparr>),
                              dirty_pages := AList.delete pid (dirty_pages s)\<rparr>)
            else Inr (False, s))"
proof -
  from found have pt: "map_of (page_table s) pid = Some f"
    by (simp add: ExtendibleHash_Find_def)
  note id = pool_inv_bound_id [OF inv pt]
  show ?thesis
  proof (cases "is_dirty (pages s f)")
    case True
    from pool_inv_dirty_set [OF inv pt True] True id valid found show ?thesis
      by (simp add: FlushPage_def Let_def SetDirty_def)
  next
    case False
    with id valid found show ?thesis by (simp add: FlushPage_def)
  qed
qed

end
